theory Spec2Isabelle
  imports Complex_Main "HOL-Library.Char_ord" "HOL-Library.List_Lexorder" "HOL-Library.Multiset"
begin

section \<open>Decoded JSON values and Python's view of them\<close>

text \<open>
  \<^verbatim>\<open>json.loads\<close> yields \<^verbatim>\<open>None\<close>, booleans, unbounded integers, floats, strings, lists
  and dicts. A float is a finite value (every double is a rational) or one of the three
  specials the decoder accepts. A dict is an association list read with \<open>map_of\<close>.
\<close>

datatype pyfloat = Finite rat | NaN | Infinity | NegInfinity

datatype json =
    JNull
  | JBool bool
  | JInt int
  | JFloat pyfloat
  | JStr string
  | JArr "json list"
  | JObj "(string \<times> json) list"

type_synonym pydict = "(string \<times> json) list"

datatype error =
    TypeError
  | ValueError
  | OverflowError
  | InterfaceError
  | IntegrityError

text \<open>\<^verbatim>\<open>k in obj\<close> and \<^verbatim>\<open>obj.get(k)\<close> (which answers \<^verbatim>\<open>None\<close> for a missing key).\<close>

definition has_key :: "pydict \<Rightarrow> string \<Rightarrow> bool" where
  "has_key obj k = (map_of obj k \<noteq> None)"

definition get :: "pydict \<Rightarrow> string \<Rightarrow> json" where
  "get obj k = (case map_of obj k of None \<Rightarrow> JNull | Some v \<Rightarrow> v)"

text \<open>Truth value testing, as \<^verbatim>\<open>or\<close> and \<^verbatim>\<open>not\<close> apply it.\<close>

fun truthy :: "json \<Rightarrow> bool" where
  "truthy JNull = False"
| "truthy (JBool b) = b"
| "truthy (JInt n) = (n \<noteq> 0)"
| "truthy (JFloat f) = (f \<noteq> Finite 0)"
| "truthy (JStr s) = (s \<noteq> [])"
| "truthy (JArr xs) = (xs \<noteq> [])"
| "truthy (JObj kvs) = (kvs \<noteq> [])"

text \<open>\<^verbatim>\<open>a or b\<close>: the first operand when it is true, else the second, whatever it is.\<close>

definition py_or :: "json \<Rightarrow> json \<Rightarrow> json" where
  "py_or a b = (if truthy a then a else b)"

section \<open>Library functions the program calls\<close>

text \<open>
  A \<^verbatim>\<open>tzinfo\<close> object answers the offset (in seconds) of a wall-clock reading, given its
  \<^verbatim>\<open>fold\<close>, and converts a UTC reading to its own wall clock and fold. A \<^verbatim>\<open>datetime\<close>
  is a wall-clock reading counted in seconds from 1970-01-01T00:00:00, a microsecond
  field, the fold and an optional zone.
\<close>

record tzinfo =
  utcoffset :: "int \<Rightarrow> nat \<Rightarrow> int"
  fromutc :: "int \<Rightarrow> int \<times> nat"

record datetime =
  dt_wall :: int
  dt_micro :: nat
  dt_fold :: nat
  dt_tz :: "tzinfo option"

text \<open>
  What the program takes from outside: dateutil's two parsers, the zone database entry
  for Europe/Paris, the machine's local zone, \<^verbatim>\<open>int\<close> on a string, the SHA-256 digest,
  reading and decoding a file's text, and the clock. Every theorem below holds for any
  behaviour of these.
\<close>

record libs =
  dtparser_parse :: "string \<Rightarrow> error + datetime"
  dtparser_isoparse :: "string \<Rightarrow> error + datetime"
  PARIS :: tzinfo
  local_zone :: tzinfo
  int_of_str :: "string \<Rightarrow> error + int"
  sha256 :: "string \<Rightarrow> string"
  json_loads :: "string \<Rightarrow> error + json"
  now_utc :: "nat \<Rightarrow> string"

definition UTC :: tzinfo where
  "UTC = \<lparr>utcoffset = (\<lambda>w f. 0), fromutc = (\<lambda>u. (u, 0))\<rparr>"

text \<open>
  Both parsers raise on an argument that is not a string: \<^verbatim>\<open>parse\<close> refuses it at once;
  \<^verbatim>\<open>isoparse\<close> takes its length first, so a list or dict of fewer than four entries is
  "too short" and a longer one fails when its first four characters are read.
\<close>

definition parse :: "libs \<Rightarrow> json \<Rightarrow> error + datetime" where
  "parse L v = (case v of JStr s \<Rightarrow> dtparser_parse L s | _ \<Rightarrow> Inl TypeError)"

definition isoparse :: "libs \<Rightarrow> json \<Rightarrow> error + datetime" where
  "isoparse L v =
     (case v of
        JStr s \<Rightarrow> dtparser_isoparse L s
      | JArr xs \<Rightarrow> Inl (if length xs < 4 then ValueError else TypeError)
      | JObj kvs \<Rightarrow> Inl (if length kvs < 4 then ValueError else TypeError)
      | _ \<Rightarrow> Inl TypeError)"

text \<open>
  A \<^verbatim>\<open>datetime\<close> lies between 0001-01-01T00:00:00 and 9999-12-31T23:59:59; arithmetic
  that leaves the range raises \<^verbatim>\<open>OverflowError\<close>.
\<close>

definition in_range :: "int \<Rightarrow> bool" where
  "in_range w = (- 62135596800 \<le> w \<and> w \<le> 253402300799)"

definition replace_tzinfo :: "datetime \<Rightarrow> tzinfo \<Rightarrow> datetime" where
  "replace_tzinfo dt z = dt\<lparr>dt_tz := Some z\<rparr>"

definition dt_utcoffset :: "libs \<Rightarrow> datetime \<Rightarrow> int" where
  "dt_utcoffset L dt =
     utcoffset (case dt_tz dt of None \<Rightarrow> local_zone L | Some z \<Rightarrow> z) (dt_wall dt) (dt_fold dt)"

text \<open>
  \<^verbatim>\<open>dt.astimezone(z)\<close>: subtract the datetime's own offset (a naive one is read in the
  local zone), then let the target zone place the UTC reading on its wall clock.
\<close>

definition astimezone :: "libs \<Rightarrow> datetime \<Rightarrow> tzinfo \<Rightarrow> error + datetime" where
  "astimezone L dt z =
     (let u = dt_wall dt - dt_utcoffset L dt in
      if \<not> in_range u then Inl OverflowError
      else (case fromutc z u of (w, f) \<Rightarrow>
        if \<not> in_range w then Inl OverflowError
        else Inr (dt\<lparr>dt_wall := w, dt_fold := f, dt_tz := Some z\<rparr>)))"

text \<open>
  \<^verbatim>\<open>to_iso\<close> prints the wall clock to the second, followed by the offset of an aware
  datetime. The text is kept as the two numbers it spells: the wall-clock second count
  and the offset.
\<close>

record isotext =
  iso_wall :: int
  iso_offset :: "int option"

definition to_iso :: "datetime \<Rightarrow> isotext" where
  "to_iso dt =
     \<lparr>iso_wall = dt_wall dt,
      iso_offset = (case dt_tz dt of None \<Rightarrow> None
                    | Some z \<Rightarrow> Some (utcoffset z (dt_wall dt) (dt_fold dt)))\<rparr>"

text \<open>\<^verbatim>\<open>int(v)\<close>: a float is truncated towards zero, a string is parsed, a container is refused.\<close>

definition trunc :: "rat \<Rightarrow> int" where
  "trunc q = (if 0 \<le> q then \<lfloor>q\<rfloor> else \<lceil>q\<rceil>)"

fun py_int :: "libs \<Rightarrow> json \<Rightarrow> error + int" where
  "py_int L JNull = Inl TypeError"
| "py_int L (JBool b) = Inr (if b then 1 else 0)"
| "py_int L (JInt n) = Inr n"
| "py_int L (JFloat (Finite q)) = Inr (trunc q)"
| "py_int L (JFloat NaN) = Inl ValueError"
| "py_int L (JFloat Infinity) = Inl OverflowError"
| "py_int L (JFloat NegInfinity) = Inl OverflowError"
| "py_int L (JStr s) = int_of_str L s"
| "py_int L (JArr xs) = Inl TypeError"
| "py_int L (JObj kvs) = Inl TypeError"

section \<open>The schema normalizer: \<^verbatim>\<open>parse_event\<close>\<close>

text \<open>The nine-component tuple that \<^verbatim>\<open>parse_event\<close> returns.\<close>

record row =
  r_utc :: isotext
  r_local :: isotext
  r_track :: json
  r_artist :: json
  r_album :: json
  r_ms :: int
  r_platform :: json
  r_content_type :: string
  r_raw_source :: string

text \<open>The old format: \<^verbatim>\<open>endTime\<close> with \<^verbatim>\<open>msPlayed\<close> (source lines 113 to 135).\<close>

definition old_row :: "pydict \<Rightarrow> datetime \<Rightarrow> datetime \<Rightarrow> int \<Rightarrow> row" where
  "old_row obj end_utc end_local ms =
     \<lparr>r_utc = to_iso end_utc,
      r_local = to_iso end_local,
      r_track = get obj ''trackName'',
      r_artist = get obj ''artistName'',
      r_album = JNull,
      r_ms = ms,
      r_platform = JNull,
      r_content_type = ''music'',
      r_raw_source = ''streaming_history_old''\<rparr>"

definition old_format :: "libs \<Rightarrow> pydict \<Rightarrow> error + row option" where
  "old_format L obj =
     (case parse L (get obj ''endTime'') of Inl e \<Rightarrow> Inl e | Inr end_time \<Rightarrow>
      (case (case dt_tz end_time of None \<Rightarrow> Inr (replace_tzinfo end_time (PARIS L))
             | Some z \<Rightarrow> astimezone L end_time (PARIS L)) of Inl e \<Rightarrow> Inl e | Inr end_local \<Rightarrow>
       (case astimezone L end_local UTC of Inl e \<Rightarrow> Inl e | Inr end_utc \<Rightarrow>
        (case py_int L (py_or (get obj ''msPlayed'') (JInt 0)) of Inl e \<Rightarrow> Inl e | Inr ms \<Rightarrow>
         if ms \<le> 0 then Inr None else Inr (Some (old_row obj end_utc end_local ms))))))"

text \<open>The \<^verbatim>\<open>ts\<close> format (source lines 138 to 172).\<close>

definition ts_row :: "pydict \<Rightarrow> datetime \<Rightarrow> datetime \<Rightarrow> int \<Rightarrow> row" where
  "ts_row obj ts_utc ts_local ms =
     (let track0 = py_or (get obj ''master_metadata_track_name'') (get obj ''trackName'');
          artist0 = py_or (get obj ''master_metadata_album_artist_name'') (get obj ''artistName'');
          album = py_or (get obj ''master_metadata_album_album_name'') (get obj ''albumName'');
          track = (if \<not> truthy track0
                   then py_or (get obj ''episode_name'') (get obj ''episode_title'')
                   else track0);
          artist = (if \<not> truthy artist0
                    then py_or (get obj ''episode_show_name'') (get obj ''show_name'')
                    else artist0);
          content_type =
            (if truthy (py_or (get obj ''spotify_episode_uri'')
                         (py_or (get obj ''episode_name'') (get obj ''episode_show_name'')))
             then ''podcast'' else ''music'')
      in \<lparr>r_utc = to_iso ts_utc,
          r_local = to_iso ts_local,
          r_track = track,
          r_artist = artist,
          r_album = album,
          r_ms = ms,
          r_platform = get obj ''platform'',
          r_content_type = content_type,
          r_raw_source = ''streaming_history_new''\<rparr>)"

definition ts_format :: "libs \<Rightarrow> pydict \<Rightarrow> error + row option" where
  "ts_format L obj =
     (case isoparse L (get obj ''ts'') of Inl e \<Rightarrow> Inl e | Inr ts_dt0 \<Rightarrow>
      (let ts_dt = (case dt_tz ts_dt0 of None \<Rightarrow> replace_tzinfo ts_dt0 UTC | Some z \<Rightarrow> ts_dt0) in
       (case astimezone L ts_dt UTC of Inl e \<Rightarrow> Inl e | Inr ts_utc \<Rightarrow>
        (case astimezone L ts_utc (PARIS L) of Inl e \<Rightarrow> Inl e | Inr ts_local \<Rightarrow>
         (case py_int L (py_or (get obj ''ms_played'') (py_or (get obj ''msPlayed'') (JInt 0))) of
            Inl e \<Rightarrow> Inl e
          | Inr ms \<Rightarrow>
            if ms \<le> 0 then Inr None else Inr (Some (ts_row obj ts_utc ts_local ms)))))))"

text \<open>\<^verbatim>\<open>parse_event\<close>: a row, \<^verbatim>\<open>None\<close>, or the exception that escapes.\<close>

definition parse_event :: "libs \<Rightarrow> pydict \<Rightarrow> error + row option" where
  "parse_event L obj =
     (if has_key obj ''endTime'' \<and> has_key obj ''msPlayed'' then old_format L obj
      else if has_key obj ''ts'' \<and> (has_key obj ''ms_played'' \<or> has_key obj ''msPlayed'')
      then ts_format L obj
      else Inr None)"

section \<open>The store\<close>

text \<open>
  The two tables \<^verbatim>\<open>init_db\<close> creates. A table is the list of its rows in insertion
  order, which is the order of the \<^verbatim>\<open>AUTOINCREMENT\<close> key. The timestamp columns hold the
  texts \<^verbatim>\<open>to_iso\<close> printed.
\<close>

record import_row =
  imported_at :: string
  export_root :: string
  file_path :: string
  file_hash :: string
  rows_inserted :: nat

record event_row =
  played_at_utc :: isotext
  played_at_local :: isotext
  track_name :: json
  artist_name :: json
  album_name :: json
  ms_played :: int
  platform :: json
  content_type :: string
  source_file_hash :: string
  raw_source :: string

record db =
  imports_tbl :: "import_row list"
  events_tbl :: "event_row list"

text \<open>
  Binding a Python value to a statement parameter: lists and dicts are refused, an
  integer outside 64 bits overflows.
\<close>

fun bind_param :: "json \<Rightarrow> error option" where
  "bind_param (JInt n) = (if - (2 ^ 63) \<le> n \<and> n < 2 ^ 63 then None else Some OverflowError)"
| "bind_param (JArr xs) = Some InterfaceError"
| "bind_param (JObj kvs) = Some InterfaceError"
| "bind_param v = None"

fun first_error :: "error option list \<Rightarrow> error option" where
  "first_error [] = None"
| "first_error (None # xs) = first_error xs"
| "first_error (Some e # xs) = Some e"

text \<open>\<^verbatim>\<open>INSERT INTO events\<close>: every column the statement names is typed to accept its value.\<close>

definition insert_event :: "db \<Rightarrow> event_row \<Rightarrow> error + db" where
  "insert_event d e =
     (case first_error (map bind_param
             [track_name e, artist_name e, album_name e, JInt (ms_played e), platform e]) of
        Some x \<Rightarrow> Inl x
      | None \<Rightarrow> Inr (d\<lparr>events_tbl := events_tbl d @ [e]\<rparr>))"

text \<open>
  The columns of \<^verbatim>\<open>imports\<close> as \<^verbatim>\<open>init_db\<close> declares them (source lines 43 to 50), and the
  value a row holds in a column. The key column is filled by the store.
\<close>

datatype column_constraint = PRIMARY_KEY_AUTOINCREMENT | NOT_NULL | UNIQUE

definition imports_columns :: "(string \<times> column_constraint list) list" where
  "imports_columns =
     [(''id'', [PRIMARY_KEY_AUTOINCREMENT]),
      (''imported_at'', [NOT_NULL]),
      (''export_root'', [NOT_NULL]),
      (''file_path'', [NOT_NULL]),
      (''file_hash'', [NOT_NULL, UNIQUE]),
      (''rows_inserted'', [NOT_NULL])]"

definition import_value :: "import_row \<Rightarrow> string \<Rightarrow> json" where
  "import_value r col =
     (if col = ''imported_at'' then JStr (imported_at r)
      else if col = ''export_root'' then JStr (export_root r)
      else if col = ''file_path'' then JStr (file_path r)
      else if col = ''file_hash'' then JStr (file_hash r)
      else if col = ''rows_inserted'' then JInt (int (rows_inserted r))
      else JNull)"

definition unique_columns :: "string list" where
  "unique_columns = map fst (filter (\<lambda>(col, cs). UNIQUE \<in> set cs) imports_columns)"

text \<open>
  \<^verbatim>\<open>INSERT INTO imports\<close>: the store refuses a row that repeats, in a column declared
  \<^verbatim>\<open>UNIQUE\<close>, the value of a row it holds. The values the program binds are never \<^verbatim>\<open>NULL\<close>.
\<close>

definition insert_import :: "db \<Rightarrow> import_row \<Rightarrow> error + db" where
  "insert_import d r =
     (if \<exists>col \<in> set unique_columns. \<exists>r' \<in> set (imports_tbl d).
           import_value r' col = import_value r col
      then Inl IntegrityError
      else Inr (d\<lparr>imports_tbl := imports_tbl d @ [r]\<rparr>))"

text \<open>
  A connection: what is committed to the database file, and the working copy of the
  transaction that is open, if one is. By default the \<^verbatim>\<open>sqlite3\<close> module opens a
  transaction before an \<^verbatim>\<open>INSERT\<close> and keeps it open until \<^verbatim>\<open>commit\<close>; a connection that
  goes away first leaves the file as committed.
\<close>

record conn =
  committed :: db
  pending :: "db option"

definition view :: "conn \<Rightarrow> db" where
  "view c = (case pending c of None \<Rightarrow> committed c | Some d \<Rightarrow> d)"

definition begin_txn :: "conn \<Rightarrow> conn" where
  "begin_txn c = c\<lparr>pending := Some (view c)\<rparr>"

definition commit :: "conn \<Rightarrow> conn" where
  "commit c = \<lparr>committed = view c, pending = None\<rparr>"

datatype stmt = InsertEvent event_row | InsertImport import_row

definition run_stmt :: "db \<Rightarrow> stmt \<Rightarrow> error + db" where
  "run_stmt d s = (case s of InsertEvent e \<Rightarrow> insert_event d e | InsertImport r \<Rightarrow> insert_import d r)"

text \<open>One parameter set of an \<^verbatim>\<open>INSERT\<close>, inside the open transaction.\<close>

definition step :: "conn \<Rightarrow> stmt \<Rightarrow> conn \<times> error option" where
  "step c s =
     (case run_stmt (view c) s of
        Inl x \<Rightarrow> (c, Some x)
      | Inr d \<Rightarrow> (c\<lparr>pending := Some d\<rparr>, None))"

fun steps :: "conn \<Rightarrow> stmt list \<Rightarrow> conn \<times> error option" where
  "steps c [] = (c, None)"
| "steps c (s # ss) =
     (case step c s of (c', Some x) \<Rightarrow> (c', Some x) | (c', None) \<Rightarrow> steps c' ss)"

definition execute :: "conn \<Rightarrow> stmt \<Rightarrow> conn \<times> error option" where
  "execute c s = step (begin_txn c) s"

definition executemany :: "conn \<Rightarrow> stmt list \<Rightarrow> conn \<times> error option" where
  "executemany c ss = steps (begin_txn c) ss"

text \<open>A database file that \<^verbatim>\<open>init_db\<close> has just created, and a connection to a file.\<close>

definition new_db :: db where
  "new_db = \<lparr>imports_tbl = [], events_tbl = []\<rparr>"

definition connect :: "db \<Rightarrow> conn" where
  "connect d = \<lparr>committed = d, pending = None\<rparr>"

text \<open>
  \<^verbatim>\<open>init_db\<close>: \<^verbatim>\<open>executescript\<close> commits what is pending and creates whichever table is
  missing; a value of type \<open>db\<close> has both, so nothing is added; then the commit.
\<close>

definition init_db :: "conn \<Rightarrow> conn" where
  "init_db c = commit c"

definition already_imported :: "conn \<Rightarrow> string \<Rightarrow> bool" where
  "already_imported c h = (h \<in> set (map file_hash (imports_tbl (view c))))"

section \<open>The ingestion coordinator: \<^verbatim>\<open>ingest_export\<close>\<close>

text \<open>
  A candidate file, as \<^verbatim>\<open>find_candidate_files\<close> lists it: its path and its bytes. The
  files are taken to be readable, so that \<^verbatim>\<open>sha256_file\<close> returns.
\<close>

record src_file =
  f_path :: string
  f_bytes :: string

text \<open>The loop over the decoded list (source lines 196 to 202).\<close>

fun collect_rows :: "libs \<Rightarrow> json list \<Rightarrow> error + row list" where
  "collect_rows L [] = Inr []"
| "collect_rows L (JObj obj # vs) =
     (case parse_event L obj of
        Inl x \<Rightarrow> Inl x
      | Inr None \<Rightarrow> collect_rows L vs
      | Inr (Some e) \<Rightarrow>
          (case collect_rows L vs of Inl x \<Rightarrow> Inl x | Inr es \<Rightarrow> Inr (e # es)))"
| "collect_rows L (v # vs) = collect_rows L vs"

text \<open>Reading and decoding: whatever goes wrong there leaves the empty list.\<close>

definition load_data :: "libs \<Rightarrow> src_file \<Rightarrow> json" where
  "load_data L f = (case json_loads L (f_bytes f) of Inl x \<Rightarrow> JArr [] | Inr d \<Rightarrow> d)"

definition rows_of :: "libs \<Rightarrow> json \<Rightarrow> error + row list" where
  "rows_of L data = (case data of JArr vs \<Rightarrow> collect_rows L vs | _ \<Rightarrow> Inr [])"

definition event_of :: "string \<Rightarrow> row \<Rightarrow> event_row" where
  "event_of h r =
     \<lparr>played_at_utc = r_utc r, played_at_local = r_local r,
      track_name = r_track r, artist_name = r_artist r, album_name = r_album r,
      ms_played = r_ms r, platform = r_platform r, content_type = r_content_type r,
      source_file_hash = h, raw_source = r_raw_source r\<rparr>"

text \<open>The three store calls that end the loop body (source lines 204 to 226).\<close>

definition write_unit :: "conn \<Rightarrow> event_row list \<Rightarrow> import_row \<Rightarrow> conn \<times> error option" where
  "write_unit c evs imp =
     (case (if evs \<noteq> [] then executemany c (map InsertEvent evs) else (c, None)) of
        (c1, Some x) \<Rightarrow> (c1, Some x)
      | (c1, None) \<Rightarrow>
          (case execute c1 (InsertImport imp) of
             (c2, Some x) \<Rightarrow> (c2, Some x)
           | (c2, None) \<Rightarrow> (commit c2, None)))"

text \<open>
  The loop over the files, with its three counters \<^verbatim>\<open>new_files\<close>, \<^verbatim>\<open>skipped\<close> and
  \<^verbatim>\<open>rows_total\<close>. An exception ends the run and leaves the connection as it stands.
\<close>

fun ingest_loop ::
  "libs \<Rightarrow> string \<Rightarrow> src_file list \<Rightarrow> conn \<Rightarrow> nat \<times> nat \<times> nat \<Rightarrow> conn \<times> (error + nat \<times> nat \<times> nat)" where
  "ingest_loop L root_dir [] c acc = (c, Inr acc)"
| "ingest_loop L root_dir (f # fs) c (new_files, skipped, rows_total) =
     (let h = sha256 L (f_bytes f) in
      if already_imported c h then ingest_loop L root_dir fs c (new_files, skipped + 1, rows_total)
      else
        (case rows_of L (load_data L f) of
           Inl x \<Rightarrow> (c, Inl x)
         | Inr rows \<Rightarrow>
             (case write_unit c (map (event_of h) rows)
                     \<lparr>imported_at = now_utc L (new_files + skipped), export_root = root_dir,
                      file_path = f_path f, file_hash = h, rows_inserted = length rows\<rparr> of
                (c', Some x) \<Rightarrow> (c', Inl x)
              | (c', None) \<Rightarrow>
                  ingest_loop L root_dir fs c' (new_files + 1, skipped, rows_total + length rows))))"

record summary =
  s_export_root :: string
  files_found :: nat
  new_files_imported :: nat
  files_skipped :: nat
  s_rows_inserted :: nat

definition ingest_export :: "libs \<Rightarrow> conn \<Rightarrow> string \<Rightarrow> src_file list \<Rightarrow> conn \<times> (error + summary)" where
  "ingest_export L c root_dir files =
     (case ingest_loop L root_dir files c (0, 0, 0) of
        (c', Inl x) \<Rightarrow> (c', Inl x)
      | (c', Inr (new_files, skipped, rows_total)) \<Rightarrow>
          (c', Inr \<lparr>s_export_root = root_dir, files_found = length files,
                    new_files_imported = new_files, files_skipped = skipped,
                    s_rows_inserted = rows_total\<rparr>))"

section \<open>Every state a run passes through\<close>

text \<open>
  The connection states in the order the store calls produce them: the opening of the
  transaction, each parameter set of \<^verbatim>\<open>executemany\<close>, the insert into \<^verbatim>\<open>imports\<close> and the
  commit. A run that is cut short leaves the file as \<open>committed\<close> of the state it had reached.
\<close>

fun steps_trace :: "conn \<Rightarrow> stmt list \<Rightarrow> conn list" where
  "steps_trace c [] = []"
| "steps_trace c (s # ss) =
     (case step c s of (c', Some x) \<Rightarrow> [c'] | (c', None) \<Rightarrow> c' # steps_trace c' ss)"

definition write_unit_trace :: "conn \<Rightarrow> event_row list \<Rightarrow> import_row \<Rightarrow> conn list" where
  "write_unit_trace c evs imp =
     (let t1 = (if evs \<noteq> [] then begin_txn c # steps_trace (begin_txn c) (map InsertEvent evs)
                else [])
      in case (if evs \<noteq> [] then executemany c (map InsertEvent evs) else (c, None)) of
           (c1, Some x) \<Rightarrow> t1
         | (c1, None) \<Rightarrow>
             (case execute c1 (InsertImport imp) of
                (c2, Some x) \<Rightarrow> t1 @ [begin_txn c1, c2]
              | (c2, None) \<Rightarrow> t1 @ [begin_txn c1, c2, commit c2]))"

fun ingest_trace ::
  "libs \<Rightarrow> string \<Rightarrow> src_file list \<Rightarrow> conn \<Rightarrow> nat \<times> nat \<times> nat \<Rightarrow> conn list" where
  "ingest_trace L root_dir [] c acc = []"
| "ingest_trace L root_dir (f # fs) c (new_files, skipped, rows_total) =
     (let h = sha256 L (f_bytes f) in
      if already_imported c h then ingest_trace L root_dir fs c (new_files, skipped + 1, rows_total)
      else
        (case rows_of L (load_data L f) of
           Inl x \<Rightarrow> []
         | Inr rows \<Rightarrow>
             (let evs = map (event_of h) rows;
                  imp = \<lparr>imported_at = now_utc L (new_files + skipped), export_root = root_dir,
                         file_path = f_path f, file_hash = h, rows_inserted = length rows\<rparr>
              in write_unit_trace c evs imp @
                 (case write_unit c evs imp of
                    (c', Some x) \<Rightarrow> []
                  | (c', None) \<Rightarrow>
                      ingest_trace L root_dir fs c'
                        (new_files + 1, skipped, rows_total + length rows)))))"

text \<open>
  Any use of a connection: the calls the program makes, and losing the connection
  before a commit.
\<close>

datatype call = Execute stmt | Executemany "stmt list" | Commit | Lose

definition rollback :: "conn \<Rightarrow> conn" where
  "rollback c = c\<lparr>pending := None\<rparr>"

fun do_call :: "conn \<Rightarrow> call \<Rightarrow> conn" where
  "do_call c (Execute s) = fst (execute c s)"
| "do_call c (Executemany ss) = fst (executemany c ss)"
| "do_call c Commit = commit c"
| "do_call c Lose = rollback c"

definition run_calls :: "conn \<Rightarrow> call list \<Rightarrow> conn" where
  "run_calls c cs = foldl do_call c cs"

section \<open>The aggregator: top artists\<close>

text \<open>
  The data frame of \<^verbatim>\<open>load_df\<close>, reduced to the two columns the top-artists series
  reads: the artist name, missing for a \<^verbatim>\<open>NULL\<close>, and the minutes. Strings are ordered
  as Python orders them, code point by code point. The minutes are 64-bit floating-point
  numbers, none of them a NaN (each is a positive integer divided by 60000, and sums of
  such); they are kept as values of an arbitrary linear order \<^typ>\<open>'m\<close>, and nothing is
  assumed of their arithmetic.

  Two operations of pandas and numpy are taken from outside: the sum \<^verbatim>\<open>groupby(...).sum()\<close>
  forms of the values of one group, and the outcome of the partitioning part of numpy's
  quicksort.
\<close>

record 'm numerics =
  group_sum :: "'m list \<Rightarrow> 'm"
  partition_sort :: "(string \<times> 'm) list \<Rightarrow> (string \<times> 'm) list"

definition dropna :: "(string option \<times> 'm) list \<Rightarrow> (string \<times> 'm) list" where
  "dropna df = concat (map (\<lambda>(a, m). case a of None \<Rightarrow> [] | Some s \<Rightarrow> [(s, m)]) df)"

text \<open>\<^verbatim>\<open>groupby\<close> sorts the group keys (its default \<^verbatim>\<open>sort=True\<close>).\<close>

definition groupby_sum :: "'m numerics \<Rightarrow> (string \<times> 'm) list \<Rightarrow> (string \<times> 'm) list" where
  "groupby_sum N df =
     map (\<lambda>k. (k, group_sum N (map snd (filter (\<lambda>p. fst p = k) df)))) (sort (remdups (map fst df)))"

text \<open>
  \<^verbatim>\<open>sort_values\<close> sorts with numpy's default kind, quicksort. On at most 17 values that is
  an insertion sort, which keeps equal values in the order it finds them; from 18 values
  on it partitions, and the order among equal values is whatever the partitioning
  leaves.
\<close>

definition quicksort :: "('m::linorder) numerics \<Rightarrow> (string \<times> 'm) list \<Rightarrow> (string \<times> 'm) list" where
  "quicksort N s = (if length s \<le> 17 then sort_key snd s else partition_sort N s)"

text \<open>
  With \<^verbatim>\<open>ascending=False\<close>, \<^verbatim>\<open>sort_values\<close> reverses the values, sorts them in ascending
  order and reverses the outcome.
\<close>

definition sort_values_desc :: "('m::linorder) numerics \<Rightarrow> (string \<times> 'm) list \<Rightarrow> (string \<times> 'm) list" where
  "sort_values_desc N s = rev (quicksort N (rev s))"

definition top_art :: "('m::linorder) numerics \<Rightarrow> (string option \<times> 'm) list \<Rightarrow> (string \<times> 'm) list" where
  "top_art N df = take 15 (sort_values_desc N (groupby_sum N (dropna df)))"

section \<open>Sample library behaviour, for evaluation\<close>

text \<open>
  Concrete stand-ins for the library functions, used only to evaluate the program on
  concrete inputs. They agree with the libraries on the inputs evaluated below: the
  timestamp layouts \<^verbatim>\<open>YYYY-MM-DD HH:MM:SS\<close> and \<^verbatim>\<open>YYYY-MM-DDTHH:MM:SS\<close> with an optional
  \<^verbatim>\<open>Z\<close>, the Europe/Paris rule of the year 2023, and signed decimal numerals.
\<close>

definition digit :: "char \<Rightarrow> nat option" where
  "digit c = (if CHR ''0'' \<le> c \<and> c \<le> CHR ''9'' then Some (of_char c - 48) else None)"

fun number :: "nat \<Rightarrow> string \<Rightarrow> nat option" where
  "number acc [] = Some acc"
| "number acc (c # cs) = (case digit c of None \<Rightarrow> None | Some d \<Rightarrow> number (10 * acc + d) cs)"

definition field :: "string \<Rightarrow> nat \<Rightarrow> nat \<Rightarrow> nat option" where
  "field s i n = (let t = take n (drop i s) in if length t = n then number 0 t else None)"

definition days_from_civil :: "int \<Rightarrow> int \<Rightarrow> int \<Rightarrow> int" where
  "days_from_civil y m d =
     (let y' = (if m \<le> 2 then y - 1 else y);
          era = y' div 400;
          yoe = y' - era * 400;
          doy = (153 * (if m > 2 then m - 3 else m + 9) + 2) div 5 + d - 1;
          doe = yoe * 365 + yoe div 4 - yoe div 100 + doy
      in era * 146097 + doe - 719468)"

definition days_in_month :: "int \<Rightarrow> int \<Rightarrow> int" where
  "days_in_month y m =
     (if m = 2 then (if y mod 4 = 0 \<and> (y mod 100 \<noteq> 0 \<or> y mod 400 = 0) then 29 else 28)
      else if m \<in> {4, 6, 9, 11} then 30 else 31)"

definition read_stamp :: "char \<Rightarrow> string \<Rightarrow> int option" where
  "read_stamp sep s =
     (if length s = 19 \<and> s ! 4 = CHR ''-'' \<and> s ! 7 = CHR ''-'' \<and> s ! 10 = sep
         \<and> s ! 13 = CHR '':'' \<and> s ! 16 = CHR '':''
      then
        (case (field s 0 4, field s 5 2, field s 8 2, field s 11 2, field s 14 2, field s 17 2) of
           (Some y, Some m, Some d, Some hh, Some mi, Some ss) \<Rightarrow>
             if 1 \<le> y \<and> 1 \<le> m \<and> m \<le> 12 \<and> 1 \<le> d \<and> int d \<le> days_in_month (int y) (int m)
                \<and> hh < 24 \<and> mi < 60 \<and> ss < 60
             then Some (days_from_civil (int y) (int m) (int d) * 86400
                        + int hh * 3600 + int mi * 60 + int ss)
             else None
         | _ \<Rightarrow> None)
      else None)"

definition sample_parse :: "string \<Rightarrow> error + datetime" where
  "sample_parse s =
     (case read_stamp CHR '' '' s of
        Some w \<Rightarrow> Inr \<lparr>dt_wall = w, dt_micro = 0, dt_fold = 0, dt_tz = None\<rparr>
      | None \<Rightarrow> Inl ValueError)"

definition sample_isoparse :: "string \<Rightarrow> error + datetime" where
  "sample_isoparse s =
     (if length s = 20 \<and> last s = CHR ''Z'' then
        (case read_stamp CHR ''T'' (butlast s) of
           Some w \<Rightarrow> Inr \<lparr>dt_wall = w, dt_micro = 0, dt_fold = 0, dt_tz = Some UTC\<rparr>
         | None \<Rightarrow> Inl ValueError)
      else
        (case read_stamp CHR ''T'' s of
           Some w \<Rightarrow> Inr \<lparr>dt_wall = w, dt_micro = 0, dt_fold = 0, dt_tz = None\<rparr>
         | None \<Rightarrow> Inl ValueError))"

text \<open>
  Europe/Paris in 2023: summer time from 2023-03-26T01:00:00Z (1679792400) until
  2023-10-29T01:00:00Z (1698541200). A wall-clock reading of the repeated hour belongs
  to summer time unless its fold is set.
\<close>

definition sample_paris :: tzinfo where
  "sample_paris =
     \<lparr>utcoffset = (\<lambda>w f.
         if w < 1679796000 then 3600
         else if w < 1698544800 then 7200
         else if w < 1698548400 then (if f = 0 then 7200 else 3600)
         else 3600),
      fromutc = (\<lambda>u.
         if u < 1679792400 then (u + 3600, 0)
         else if u < 1698541200 then (u + 7200, 0)
         else if u < 1698544800 then (u + 3600, 1)
         else (u + 3600, 0))\<rparr>"

definition sample_int_of_str :: "string \<Rightarrow> error + int" where
  "sample_int_of_str s =
     (case s of
        [] \<Rightarrow> Inl ValueError
      | c # cs \<Rightarrow>
          if c = CHR ''-'' \<or> c = CHR ''+'' then
            (if cs = [] then Inl ValueError
             else (case number 0 cs of None \<Rightarrow> Inl ValueError
                   | Some n \<Rightarrow> Inr (if c = CHR ''-'' then - int n else int n)))
          else (case number 0 s of None \<Rightarrow> Inl ValueError | Some n \<Rightarrow> Inr (int n)))"

text \<open>
  Some file contents and their decodings; any other content counts as undecodable. The
  fingerprint stand-in is the content itself.
\<close>

definition sample_old_obj :: pydict where
  "sample_old_obj =
     [(''endTime'', JStr ''2023-05-01 10:00:00''), (''msPlayed'', JInt 120000),
      (''trackName'', JStr ''A''), (''artistName'', JStr ''B'')]"

definition sample_new_obj :: pydict where
  "sample_new_obj =
     [(''ts'', JStr ''2023-05-01T08:00:00Z''), (''ms_played'', JInt 60000),
      (''master_metadata_track_name'', JStr ''C''), (''episode_name'', JStr ''D'')]"

definition sample_bad_obj :: pydict where
  "sample_bad_obj = [(''endTime'', JStr ''2023-05-01 10:00:00''), (''msPlayed'', JStr ''abc'')]"

definition sample_json_loads :: "string \<Rightarrow> error + json" where
  "sample_json_loads s =
     (if s = ''old'' then Inr (JArr [JObj sample_old_obj])
      else if s = ''new'' then Inr (JArr [JObj sample_new_obj, JInt 7])
      else if s = ''bad record'' then Inr (JArr [JObj sample_bad_obj])
      else if s = ''{}'' then Inr (JObj [])
      else Inl ValueError)"

definition sample_libs :: libs where
  "sample_libs =
     \<lparr>dtparser_parse = sample_parse,
      dtparser_isoparse = sample_isoparse,
      PARIS = sample_paris,
      local_zone = UTC,
      int_of_str = sample_int_of_str,
      sha256 = (\<lambda>s. s),
      json_loads = sample_json_loads,
      now_utc = (\<lambda>n. ''2026-11-04T12:00:00+00:00'')\<rparr>"

definition sample_old_row :: row where
  "sample_old_row =
     \<lparr>r_utc = \<lparr>iso_wall = 1682928000, iso_offset = Some 0\<rparr>,
      r_local = \<lparr>iso_wall = 1682935200, iso_offset = Some 7200\<rparr>,
      r_track = JStr ''A'', r_artist = JStr ''B'', r_album = JNull, r_ms = 120000,
      r_platform = JNull, r_content_type = ''music'',
      r_raw_source = ''streaming_history_old''\<rparr>"

definition sample_new_row :: row where
  "sample_new_row =
     \<lparr>r_utc = \<lparr>iso_wall = 1682928000, iso_offset = Some 0\<rparr>,
      r_local = \<lparr>iso_wall = 1682935200, iso_offset = Some 7200\<rparr>,
      r_track = JStr ''C'', r_artist = JNull, r_album = JNull, r_ms = 60000,
      r_platform = JNull, r_content_type = ''podcast'',
      r_raw_source = ''streaming_history_new''\<rparr>"




definition sample_naive_ts_obj :: pydict where
  "sample_naive_ts_obj = [(''ts'', JStr ''2023-05-01T08:00:00''), (''ms_played'', JInt 60000)]"

definition sample_end_time :: datetime where
  "sample_end_time = \<lparr>dt_wall = 1682935200, dt_micro = 0, dt_fold = 0, dt_tz = None\<rparr>"

definition sample_naive_ts :: datetime where
  "sample_naive_ts = \<lparr>dt_wall = 1682928000, dt_micro = 0, dt_fold = 0, dt_tz = None\<rparr>"

definition sample_naive_ts_row :: row where
  "sample_naive_ts_row =
     \<lparr>r_utc = \<lparr>iso_wall = 1682928000, iso_offset = Some 0\<rparr>,
      r_local = \<lparr>iso_wall = 1682935200, iso_offset = Some 7200\<rparr>,
      r_track = JNull, r_artist = JNull, r_album = JNull, r_ms = 60000,
      r_platform = JNull, r_content_type = ''music'',
      r_raw_source = ''streaming_history_new''\<rparr>"

definition sample_import :: import_row where
  "sample_import =
     \<lparr>imported_at = ''2026-11-04T12:00:00+00:00'', export_root = ''/x'',
      file_path = ''/x/bad.json'', file_hash = ''not valid json'', rows_inserted = 0\<rparr>"

definition sample_db :: db where
  "sample_db = \<lparr>imports_tbl = [sample_import], events_tbl = []\<rparr>"

definition sample_files :: "src_file list" where
  "sample_files =
     [\<lparr>f_path = ''/x/StreamingHistory0.json'', f_bytes = ''old''\<rparr>,
      \<lparr>f_path = ''/x/bad.json'', f_bytes = ''not valid json''\<rparr>,
      \<lparr>f_path = ''/x/endsong_0.json'', f_bytes = ''new''\<rparr>]"

definition sample_store :: db where
  "sample_store =
     \<lparr>imports_tbl =
        [\<lparr>imported_at = ''2026-11-04T12:00:00+00:00'', export_root = ''/x'',
          file_path = ''/x/StreamingHistory0.json'', file_hash = ''old'', rows_inserted = 1\<rparr>,
         sample_import,
         \<lparr>imported_at = ''2026-11-04T12:00:00+00:00'', export_root = ''/x'',
          file_path = ''/x/endsong_0.json'', file_hash = ''new'', rows_inserted = 1\<rparr>],
      events_tbl = [event_of ''old'' sample_old_row, event_of ''new'' sample_new_row]\<rparr>"

definition sample_old_import :: import_row where
  "sample_old_import =
     \<lparr>imported_at = ''2026-11-04T12:00:00+00:00'', export_root = ''/x'',
      file_path = ''/x/StreamingHistory0.json'', file_hash = ''old'', rows_inserted = 1\<rparr>"




definition sample_reversing :: "rat numerics" where
  "sample_reversing = \<lparr>group_sum = sum_list, partition_sort = (\<lambda>s. rev (sort_key (\<lambda>p. - snd p) s))\<rparr>"

definition sample_df18 :: "(string option \<times> rat) list" where
  "sample_df18 = map (\<lambda>c. (Some [c], 1)) ''abcdefghijklmnopqr''"

definition sample_abort_files :: "src_file list" where
  "sample_abort_files =
     [\<lparr>f_path = ''/x/StreamingHistory0.json'', f_bytes = ''old''\<rparr>,
      \<lparr>f_path = ''/x/endsong_1.json'', f_bytes = ''bad record''\<rparr>,
      \<lparr>f_path = ''/x/endsong_0.json'', f_bytes = ''new''\<rparr>]"

definition sample_old_file :: src_file where
  "sample_old_file = \<lparr>f_path = ''/x/StreamingHistory0.json'', f_bytes = ''old''\<rparr>"

section \<open>Vocabulary of the specification\<close>

text \<open>
  A field is present in a record when \<^verbatim>\<open>obj.get\<close> of its key is a true value: the key is
  there and its value is not \<^verbatim>\<open>null\<close>, empty, zero or \<^verbatim>\<open>false\<close>. This is the test the
  \<^verbatim>\<open>or\<close> chains and the conditional expression of \<^verbatim>\<open>parse_event\<close> apply.
\<close>

definition present :: "pydict \<Rightarrow> string \<Rightarrow> bool" where
  "present obj k = truthy (get obj k)"

text \<open>
  The timestamp texts of the specification: a UTC reading; a wall-clock reading taken as
  Paris civil time; the UTC reading derived from such a Paris reading; and the Paris
  reading derived from a UTC reading.
\<close>

definition utc_text :: "int \<Rightarrow> isotext" where
  "utc_text u = \<lparr>iso_wall = u, iso_offset = Some 0\<rparr>"

definition paris_text :: "libs \<Rightarrow> int \<Rightarrow> nat \<Rightarrow> isotext" where
  "paris_text L w f = \<lparr>iso_wall = w, iso_offset = Some (utcoffset (PARIS L) w f)\<rparr>"

definition utc_of_paris :: "libs \<Rightarrow> int \<Rightarrow> nat \<Rightarrow> isotext" where
  "utc_of_paris L w f = utc_text (w - utcoffset (PARIS L) w f)"

definition paris_of_utc :: "libs \<Rightarrow> int \<Rightarrow> isotext" where
  "paris_of_utc L u = (case fromutc (PARIS L) u of (w, f) \<Rightarrow> paris_text L w f)"




text \<open>Every event row in the store has a positive play time.\<close>

definition positive_ms :: "db \<Rightarrow> bool" where
  "positive_ms d = (\<forall>e \<in> set (events_tbl d). 0 < ms_played e)"

text \<open>No fingerprint has two import records.\<close>

definition unique_hashes :: "db \<Rightarrow> bool" where
  "unique_hashes d = distinct (map file_hash (imports_tbl d))"

text \<open>
  The unit of a file, in the words of the specification. The objects of a file are the
  elements of its decoded array, none when the file is not valid JSON or not an array.
  Its accepted rows are the rows the normalizer returns for those objects that are
  dicts, in their order. The event row stored for an accepted row carries the nine
  components of the row and the fingerprint of the file; the import record of the file
  carries the fingerprint and the number of accepted rows.

  In a store the unit of a file is absent when the store holds no import record and no
  event row with the file's fingerprint, and visible when it holds exactly one such
  record, counting the accepted rows, and exactly the event rows of the accepted rows.
\<close>

definition stored_event :: "string \<Rightarrow> row \<Rightarrow> event_row" where
  "stored_event h r =
     \<lparr>played_at_utc = r_utc r, played_at_local = r_local r,
      track_name = r_track r, artist_name = r_artist r, album_name = r_album r,
      ms_played = r_ms r, platform = r_platform r, content_type = r_content_type r,
      source_file_hash = h, raw_source = r_raw_source r\<rparr>"

definition file_objects :: "libs \<Rightarrow> src_file \<Rightarrow> json list" where
  "file_objects L f = (case json_loads L (f_bytes f) of Inr (JArr vs) \<Rightarrow> vs | _ \<Rightarrow> [])"

definition accepted_of :: "libs \<Rightarrow> json \<Rightarrow> row list" where
  "accepted_of L v =
     (case v of JObj obj \<Rightarrow> (case parse_event L obj of Inr (Some r) \<Rightarrow> [r] | _ \<Rightarrow> []) | _ \<Rightarrow> [])"

definition accepted_rows :: "libs \<Rightarrow> src_file \<Rightarrow> row list" where
  "accepted_rows L f = concat (map (accepted_of L) (file_objects L f))"

definition unit_record :: "libs \<Rightarrow> string \<Rightarrow> src_file \<Rightarrow> nat \<Rightarrow> import_row" where
  "unit_record L root_dir f n =
     \<lparr>imported_at = now_utc L n, export_root = root_dir, file_path = f_path f,
      file_hash = sha256 L (f_bytes f), rows_inserted = length (accepted_rows L f)\<rparr>"

definition unit_events :: "libs \<Rightarrow> src_file \<Rightarrow> event_row list" where
  "unit_events L f = map (stored_event (sha256 L (f_bytes f))) (accepted_rows L f)"

definition unit_absent :: "libs \<Rightarrow> src_file \<Rightarrow> db \<Rightarrow> bool" where
  "unit_absent L f d =
     (filter (\<lambda>i. file_hash i = sha256 L (f_bytes f)) (imports_tbl d) = []
      \<and> filter (\<lambda>e. source_file_hash e = sha256 L (f_bytes f)) (events_tbl d) = [])"

definition unit_visible :: "libs \<Rightarrow> src_file \<Rightarrow> db \<Rightarrow> bool" where
  "unit_visible L f d =
     ((case filter (\<lambda>i. file_hash i = sha256 L (f_bytes f)) (imports_tbl d) of
         [i] \<Rightarrow> rows_inserted i = length (accepted_rows L f)
       | _ \<Rightarrow> False)
      \<and> filter (\<lambda>e. source_file_hash e = sha256 L (f_bytes f)) (events_tbl d)
          = map (stored_event (sha256 L (f_bytes f))) (accepted_rows L f))"

definition units_whole :: "libs \<Rightarrow> src_file list \<Rightarrow> db \<Rightarrow> bool" where
  "units_whole L files d = list_all (\<lambda>f. unit_absent L f d \<or> unit_visible L f d) files"

text \<open>
  A store is consistent when no fingerprint has two import records, every event row
  refers to a fingerprint that has an import record, and every import record counts
  exactly the event rows that refer to it.
\<close>

definition consistent :: "db \<Rightarrow> bool" where
  "consistent d =
     (distinct (map file_hash (imports_tbl d))
      \<and> (\<forall>e \<in> set (events_tbl d). source_file_hash e \<in> set (map file_hash (imports_tbl d)))
      \<and> (\<forall>i \<in> set (imports_tbl d).
            length (filter (\<lambda>e. source_file_hash e = file_hash i) (events_tbl d)) = rows_inserted i))"

text \<open>The store after a whole unit: the events of the file and its import record.\<close>

definition with_unit :: "db \<Rightarrow> event_row list \<Rightarrow> import_row \<Rightarrow> db" where
  "with_unit d evs imp = \<lparr>imports_tbl = imports_tbl d @ [imp], events_tbl = events_tbl d @ evs\<rparr>"




text \<open>
  What is known of the partitioning part of the sort: its outcome holds the same entries
  and is in ascending order of value. Nothing is said of entries with equal values.
\<close>

definition sorts_by_value :: "((string \<times> 'm::linorder) list \<Rightarrow> (string \<times> 'm) list) \<Rightarrow> bool" where
  "sorts_by_value srt = (\<forall>s. mset (srt s) = mset s \<and> sorted (map snd (srt s)))"



section \<open>Properties of \<^verbatim>\<open>parse_event\<close>\<close>

lemma old_format_row:
  "old_format L obj = Inr (Some r) \<Longrightarrow>
     0 < r_ms r \<and> py_int L (py_or (get obj ''msPlayed'') (JInt 0)) = Inr (r_ms r)
     \<and> r_raw_source r = ''streaming_history_old''"
  by (auto simp: old_format_def old_row_def split: sum.splits option.splits if_splits)

lemma ts_format_row:
  "ts_format L obj = Inr (Some r) \<Longrightarrow>
     0 < r_ms r
     \<and> py_int L (py_or (get obj ''ms_played'') (py_or (get obj ''msPlayed'') (JInt 0))) = Inr (r_ms r)
     \<and> r_raw_source r = ''streaming_history_new''"
  by (auto simp: ts_format_def ts_row_def Let_def split: sum.splits if_splits)

lemma parse_event_ms: "parse_event L obj = Inr (Some r) \<Longrightarrow> 0 < r_ms r"
  by (auto simp: parse_event_def split: if_splits dest: old_format_row ts_format_row)

lemma parse_event_new:
  "parse_event L obj = Inr (Some r) \<Longrightarrow> r_raw_source r = ''streaming_history_new'' \<Longrightarrow>
   ts_format L obj = Inr (Some r)"
  by (auto simp: parse_event_def split: if_splits dest: old_format_row)

lemma parse_event_old:
  "parse_event L obj = Inr (Some r) \<Longrightarrow> r_raw_source r = ''streaming_history_old'' \<Longrightarrow>
   old_format L obj = Inr (Some r)"
  by (auto simp: parse_event_def split: if_splits dest: ts_format_row)

lemma ts_format_is_row:
  "ts_format L obj = Inr (Some r) \<Longrightarrow> \<exists>du dl ms. r = ts_row obj du dl ms"
  by (auto simp: ts_format_def Let_def split: sum.splits if_splits)

lemma ts_row_fields:
  "r = ts_row obj du dl ms \<Longrightarrow>
     r_content_type r =
       (if present obj ''spotify_episode_uri'' \<or> present obj ''episode_name''
           \<or> present obj ''episode_show_name'' then ''podcast'' else ''music'')
     \<and> r_track r =
       (if present obj ''master_metadata_track_name'' then get obj ''master_metadata_track_name''
        else if present obj ''trackName'' then get obj ''trackName''
        else if present obj ''episode_name'' then get obj ''episode_name''
        else get obj ''episode_title'')"
  by (simp add: ts_row_def Let_def present_def py_or_def)

lemma sample_old_parse: "parse_event sample_libs sample_old_obj = Inr (Some sample_old_row)"
  by code_simp

lemma sample_new_parse: "parse_event sample_libs sample_new_obj = Inr (Some sample_new_row)"
  by code_simp

text \<open>
  Claim C6. A row of the \<^verbatim>\<open>ts\<close> format is a podcast exactly when one of the episode URI,
  the episode name or the show name is present, and music otherwise. Its track is the
  rich metadata track name when that is present, then the legacy track name, and only
  when neither is present the episode name or, failing that, the episode title. So a
  record with both a rich metadata track name and an episode name keeps the former and
  is a podcast.
\<close>

theorem new_schema_content_type_and_track:
  assumes "parse_event L obj = Inr (Some r)"
    and "r_raw_source r = ''streaming_history_new''"
  shows "(r_content_type r = ''podcast'' \<longleftrightarrow>
            present obj ''spotify_episode_uri'' \<or> present obj ''episode_name''
            \<or> present obj ''episode_show_name'')
       \<and> (r_content_type r = ''music'' \<longleftrightarrow>
            \<not> (present obj ''spotify_episode_uri'' \<or> present obj ''episode_name''
            \<or> present obj ''episode_show_name''))
       \<and> r_track r =
           (if present obj ''master_metadata_track_name'' then get obj ''master_metadata_track_name''
            else if present obj ''trackName'' then get obj ''trackName''
            else if present obj ''episode_name'' then get obj ''episode_name''
            else get obj ''episode_title'')
       \<and> (present obj ''master_metadata_track_name'' \<and> present obj ''episode_name'' \<longrightarrow>
            r_track r = get obj ''master_metadata_track_name'' \<and> r_content_type r = ''podcast'')"
proof -
  have "ts_format L obj = Inr (Some r)"
    using assms by (rule parse_event_new)
  then obtain du dl ms where "r = ts_row obj du dl ms"
    using ts_format_is_row by blast
  from ts_row_fields [OF this] show ?thesis
    by (simp split: if_splits)
qed

theorem new_schema_content_type_and_track_witness:
  "parse_event sample_libs sample_new_obj = Inr (Some sample_new_row)
   \<and> r_raw_source sample_new_row = ''streaming_history_new''
   \<and> present sample_new_obj ''master_metadata_track_name''
   \<and> present sample_new_obj ''episode_name''
   \<and> r_track sample_new_row = JStr ''C''
   \<and> r_content_type sample_new_row = ''podcast''"
proof -
  have tag: "r_raw_source sample_new_row = ''streaming_history_new''"
    by (simp add: sample_new_row_def)
  have p1: "present sample_new_obj ''master_metadata_track_name''"
    by (simp add: present_def get_def sample_new_obj_def)
  have p2: "present sample_new_obj ''episode_name''"
    by (simp add: present_def get_def sample_new_obj_def)
  have g: "get sample_new_obj ''master_metadata_track_name'' = JStr ''C''"
    by (simp add: get_def sample_new_obj_def)
  show ?thesis
    using new_schema_content_type_and_track [OF sample_new_parse tag] p1 p2 g sample_new_parse tag
    by simp
qed





lemma read_stamp_sample_T: "read_stamp CHR ''T'' ''2023-05-01T08:00:00'' = Some 1682928000"
  by code_simp

lemma read_stamp_sample_space: "read_stamp CHR '' '' ''2023-05-01 10:00:00'' = Some 1682935200"
  by code_simp






lemma old_format_times:
  assumes "old_format L obj = Inr (Some r)" and "parse L (get obj ''endTime'') = Inr d"
  shows "case dt_tz d of
        None \<Rightarrow> r_local r = paris_text L (dt_wall d) (dt_fold d)
               \<and> r_utc r = utc_of_paris L (dt_wall d) (dt_fold d)
      | Some z \<Rightarrow>
          (case fromutc (PARIS L) (dt_wall d - utcoffset z (dt_wall d) (dt_fold d)) of
             (w, f) \<Rightarrow> r_local r = paris_text L w f \<and> r_utc r = utc_of_paris L w f)"
proof (cases "dt_tz d")
  case None
  with assms show ?thesis
    by (auto simp: old_format_def old_row_def astimezone_def dt_utcoffset_def replace_tzinfo_def
        to_iso_def UTC_def paris_text_def utc_of_paris_def utc_text_def Let_def
        split: sum.splits if_splits)
next
  case (Some z)
  with assms show ?thesis
    by (auto simp: old_format_def old_row_def astimezone_def dt_utcoffset_def
        to_iso_def UTC_def paris_text_def utc_of_paris_def utc_text_def Let_def
        split: sum.splits if_splits prod.splits)
qed

lemma ts_format_times:
  assumes "ts_format L obj = Inr (Some r)" and "isoparse L (get obj ''ts'') = Inr d"
  shows "case dt_tz d of
        None \<Rightarrow> r_utc r = utc_text (dt_wall d) \<and> r_local r = paris_of_utc L (dt_wall d)
      | Some z \<Rightarrow>
          r_utc r = utc_text (dt_wall d - utcoffset z (dt_wall d) (dt_fold d))
          \<and> r_local r = paris_of_utc L (dt_wall d - utcoffset z (dt_wall d) (dt_fold d))"
proof (cases "dt_tz d")
  case None
  with assms show ?thesis
    by (auto simp: ts_format_def ts_row_def astimezone_def dt_utcoffset_def replace_tzinfo_def
        to_iso_def UTC_def paris_text_def paris_of_utc_def utc_text_def Let_def
        split: sum.splits if_splits prod.splits)
next
  case (Some z)
  with assms show ?thesis
    by (auto simp: ts_format_def ts_row_def astimezone_def dt_utcoffset_def
        to_iso_def UTC_def paris_text_def paris_of_utc_def utc_text_def Let_def
        split: sum.splits if_splits prod.splits)
qed

text \<open>
  Claim C5. The two branches resolve a missing offset in opposite ways. In the old
  format a parsed end time without offset is kept as a Paris wall-clock reading, and one
  with an offset is converted to Paris time; either way the UTC value is derived from
  the Paris reading. In the \<^verbatim>\<open>ts\<close> format a timestamp without offset is taken as a UTC
  reading, one with an offset is converted to UTC, and the Paris value is derived from
  the UTC reading.
\<close>

theorem timezone_defaults:
  "(parse_event L obj = Inr (Some r) \<and> r_raw_source r = ''streaming_history_old''
      \<and> parse L (get obj ''endTime'') = Inr d \<longrightarrow>
      (case dt_tz d of
         None \<Rightarrow> r_local r = paris_text L (dt_wall d) (dt_fold d)
                \<and> r_utc r = utc_of_paris L (dt_wall d) (dt_fold d)
       | Some z \<Rightarrow>
           (case fromutc (PARIS L) (dt_wall d - utcoffset z (dt_wall d) (dt_fold d)) of
              (w, f) \<Rightarrow> r_local r = paris_text L w f \<and> r_utc r = utc_of_paris L w f)))
   \<and> (parse_event L obj = Inr (Some r) \<and> r_raw_source r = ''streaming_history_new''
      \<and> isoparse L (get obj ''ts'') = Inr d \<longrightarrow>
      (case dt_tz d of
         None \<Rightarrow> r_utc r = utc_text (dt_wall d) \<and> r_local r = paris_of_utc L (dt_wall d)
       | Some z \<Rightarrow>
           r_utc r = utc_text (dt_wall d - utcoffset z (dt_wall d) (dt_fold d))
           \<and> r_local r = paris_of_utc L (dt_wall d - utcoffset z (dt_wall d) (dt_fold d))))"
  using old_format_times [OF parse_event_old] ts_format_times [OF parse_event_new]
  by blast

lemma sample_parse_old: "parse sample_libs (get sample_old_obj ''endTime'') = Inr sample_end_time"
  by (simp add: parse_def get_def sample_old_obj_def sample_libs_def sample_parse_def
      read_stamp_sample_space sample_end_time_def)

lemma sample_isoparse_naive:
  "isoparse sample_libs (get sample_naive_ts_obj ''ts'') = Inr sample_naive_ts"
  by (simp add: isoparse_def get_def sample_naive_ts_obj_def sample_libs_def sample_isoparse_def
      read_stamp_sample_T sample_naive_ts_def)

lemma sample_naive_ts_parse: "parse_event sample_libs sample_naive_ts_obj = Inr (Some sample_naive_ts_row)"
  by code_simp

theorem timezone_defaults_witness:
  "parse_event sample_libs sample_old_obj = Inr (Some sample_old_row)
   \<and> parse sample_libs (get sample_old_obj ''endTime'') = Inr sample_end_time
   \<and> dt_tz sample_end_time = None \<and> dt_wall sample_end_time = 1682935200
   \<and> r_local sample_old_row = \<lparr>iso_wall = 1682935200, iso_offset = Some 7200\<rparr>
   \<and> r_utc sample_old_row = \<lparr>iso_wall = 1682935200 - 7200, iso_offset = Some 0\<rparr>
   \<and> parse_event sample_libs sample_naive_ts_obj = Inr (Some sample_naive_ts_row)
   \<and> isoparse sample_libs (get sample_naive_ts_obj ''ts'') = Inr sample_naive_ts
   \<and> dt_tz sample_naive_ts = None \<and> dt_wall sample_naive_ts = 1682928000
   \<and> r_utc sample_naive_ts_row = \<lparr>iso_wall = 1682928000, iso_offset = Some 0\<rparr>
   \<and> r_local sample_naive_ts_row = \<lparr>iso_wall = 1682928000 + 7200, iso_offset = Some 7200\<rparr>"
proof -
  have t1: "r_raw_source sample_old_row = ''streaming_history_old''"
    by (simp add: sample_old_row_def)
  have t2: "r_raw_source sample_naive_ts_row = ''streaming_history_new''"
    by (simp add: sample_naive_ts_row_def)
  have old: "r_local sample_old_row = paris_text sample_libs 1682935200 0
      \<and> r_utc sample_old_row = utc_of_paris sample_libs 1682935200 0"
    using timezone_defaults [of sample_libs sample_old_obj sample_old_row sample_end_time]
      sample_old_parse t1 sample_parse_old
    by (simp add: sample_end_time_def)
  have new: "r_utc sample_naive_ts_row = utc_text 1682928000
      \<and> r_local sample_naive_ts_row = paris_of_utc sample_libs 1682928000"
    using timezone_defaults [of sample_libs sample_naive_ts_obj sample_naive_ts_row sample_naive_ts]
      sample_naive_ts_parse t2 sample_isoparse_naive
    by (simp add: sample_naive_ts_def)
  have v: "paris_text sample_libs 1682935200 0 = \<lparr>iso_wall = 1682935200, iso_offset = Some 7200\<rparr>"
    "utc_of_paris sample_libs 1682935200 0 = \<lparr>iso_wall = 1682935200 - 7200, iso_offset = Some 0\<rparr>"
    "utc_text 1682928000 = \<lparr>iso_wall = 1682928000, iso_offset = Some 0\<rparr>"
    "paris_of_utc sample_libs 1682928000 = \<lparr>iso_wall = 1682928000 + 7200, iso_offset = Some 7200\<rparr>"
    by (simp_all add: paris_text_def utc_of_paris_def utc_text_def paris_of_utc_def
        sample_libs_def sample_paris_def)
  show ?thesis
    using old new v sample_old_parse sample_parse_old sample_naive_ts_parse sample_isoparse_naive
    by (simp add: sample_end_time_def sample_naive_ts_def)
qed

section \<open>Properties of the store\<close>

lemma unique_columns_file_hash: "unique_columns = [''file_hash'']"
  by (simp add: unique_columns_def imports_columns_def)

lemma insert_import_file_hash:
  "insert_import d r =
     (if file_hash r \<in> set (map file_hash (imports_tbl d)) then Inl IntegrityError
      else Inr (d\<lparr>imports_tbl := imports_tbl d @ [r]\<rparr>))"
proof -
  have "(\<exists>col \<in> set unique_columns. \<exists>r' \<in> set (imports_tbl d).
           import_value r' col = import_value r col)
        \<longleftrightarrow> (\<exists>r' \<in> set (imports_tbl d). file_hash r' = file_hash r)"
    by (simp add: unique_columns_file_hash import_value_def)
  also have "\<dots> \<longleftrightarrow> file_hash r \<in> set (map file_hash (imports_tbl d))"
    by (simp add: image_iff eq_commute)
  finally show ?thesis
    by (simp add: insert_import_def)
qed

lemma init_db_new: "init_db (connect new_db) = connect new_db"
  by (simp add: init_db_def commit_def connect_def view_def)

lemma view_begin_txn [simp]: "view (begin_txn c) = view c"
  by (simp add: view_def begin_txn_def)

lemma committed_begin_txn [simp]: "committed (begin_txn c) = committed c"
  by (simp add: begin_txn_def)

lemma pending_begin_txn [simp]: "pending (begin_txn c) = Some (view c)"
  by (simp add: begin_txn_def)

lemma view_commit [simp]: "view (commit c) = view c"
  by (simp add: view_def commit_def)

lemma committed_commit [simp]: "committed (commit c) = view c"
  by (simp add: commit_def)

lemma pending_commit [simp]: "pending (commit c) = None"
  by (simp add: commit_def)

lemma insert_import_Inr:
  "insert_import d r = Inr d' \<longleftrightarrow>
     file_hash r \<notin> set (map file_hash (imports_tbl d)) \<and> d' = d\<lparr>imports_tbl := imports_tbl d @ [r]\<rparr>"
  by (auto simp: insert_import_file_hash)

lemma insert_event_Inr:
  "insert_event d e = Inr d' \<Longrightarrow> d' = d\<lparr>events_tbl := events_tbl d @ [e]\<rparr>"
  by (auto simp: insert_event_def split: option.splits)

lemma step_committed: "step c s = (c', x) \<Longrightarrow> committed c' = committed c"
  by (auto simp: step_def split: sum.splits)

lemma step_ok_view: "step c s = (c', None) \<Longrightarrow> run_stmt (view c) s = Inr (view c')"
  by (auto simp: step_def view_def split: sum.splits)

lemma step_err_view: "step c s = (c', Some x) \<Longrightarrow> c' = c \<and> run_stmt (view c) s = Inl x"
  by (auto simp: step_def split: sum.splits)

lemma run_stmt_unique:
  "run_stmt d s = Inr d' \<Longrightarrow> unique_hashes d \<Longrightarrow> unique_hashes d'"
  by (cases s) (auto simp: run_stmt_def unique_hashes_def insert_import_Inr dest!: insert_event_Inr)

lemma step_unique:
  assumes "step c s = (c', x)" and "unique_hashes (view c)"
  shows "unique_hashes (view c')"
proof (cases x)
  case None
  with assms show ?thesis
    using run_stmt_unique step_ok_view by blast
next
  case (Some e)
  with assms show ?thesis
    using step_err_view by blast
qed

lemma steps_committed: "steps c ss = (c', x) \<Longrightarrow> committed c' = committed c"
proof (induction ss arbitrary: c)
  case Nil
  then show ?case by simp
next
  case (Cons s ss)
  obtain c1 x1 where st: "step c s = (c1, x1)"
    by (cases "step c s")
  with Cons show ?case
    by (cases x1) (auto dest: step_committed)
qed

lemma steps_unique:
  "steps c ss = (c', x) \<Longrightarrow> unique_hashes (view c) \<Longrightarrow> unique_hashes (view c')"
proof (induction ss arbitrary: c)
  case Nil
  then show ?case by simp
next
  case (Cons s ss)
  obtain c1 x1 where st: "step c s = (c1, x1)"
    by (cases "step c s")
  with Cons show ?case
    by (cases x1) (auto dest: step_unique)
qed

lemma do_call_unique:
  assumes "unique_hashes (committed c)" and "unique_hashes (view c)"
  shows "unique_hashes (committed (do_call c k)) \<and> unique_hashes (view (do_call c k))"
proof (cases k)
  case (Execute s)
  obtain c' x where st: "step (begin_txn c) s = (c', x)"
    by (cases "step (begin_txn c) s")
  with assms Execute show ?thesis
    using step_committed [OF st] step_unique [OF st] by (simp add: execute_def)
next
  case (Executemany ss)
  obtain c' x where st: "steps (begin_txn c) ss = (c', x)"
    by (cases "steps (begin_txn c) ss")
  with assms Executemany show ?thesis
    using steps_committed [OF st] steps_unique [OF st] by (simp add: executemany_def)
next
  case Commit
  with assms show ?thesis by simp
next
  case Lose
  with assms show ?thesis by (simp add: rollback_def view_def)
qed

lemma run_calls_unique:
  "unique_hashes (committed c) \<Longrightarrow> unique_hashes (view c) \<Longrightarrow>
   unique_hashes (committed (run_calls c ks)) \<and> unique_hashes (view (run_calls c ks))"
  unfolding run_calls_def
  by (induction ks arbitrary: c) (simp_all add: do_call_unique)

text \<open>
  Claim C9. The uniqueness of \<^verbatim>\<open>file_hash\<close> is enforced by the store itself: an insert
  into \<^verbatim>\<open>imports\<close> of a fingerprint the table already holds is refused with an integrity
  error and changes nothing, whatever the caller checked before. So in every state that
  any sequence of calls reaches from a newly created database, committed or inside a
  transaction, no fingerprint has two import records.
\<close>

theorem file_hash_unique_in_store:
  "(file_hash r \<in> set (map file_hash (imports_tbl d)) \<longrightarrow> insert_import d r = Inl IntegrityError)
   \<and> (already_imported c (file_hash r) \<longrightarrow>
        execute c (InsertImport r) = (begin_txn c, Some IntegrityError)
        \<and> view (begin_txn c) = view c)
   \<and> unique_hashes (committed (run_calls (init_db (connect new_db)) ks))
   \<and> unique_hashes (view (run_calls (init_db (connect new_db)) ks))"
proof -
  have "unique_hashes (committed (connect new_db))" "unique_hashes (view (connect new_db))"
    by (simp_all add: unique_hashes_def connect_def new_db_def view_def)
  then show ?thesis
    using run_calls_unique
    by (auto simp: insert_import_file_hash already_imported_def execute_def step_def run_stmt_def
        init_db_new)
qed

theorem file_hash_unique_in_store_witness:
  "file_hash sample_import \<in> set (map file_hash (imports_tbl sample_db))
   \<and> insert_import sample_db sample_import = Inl IntegrityError
   \<and> already_imported (connect sample_db) (file_hash sample_import)
   \<and> execute (connect sample_db) (InsertImport sample_import)
       = (begin_txn (connect sample_db), Some IntegrityError)
   \<and> imports_tbl (committed (run_calls (init_db (connect new_db))
         [Execute (InsertImport sample_import), Execute (InsertImport sample_import), Commit]))
       = [sample_import]
   \<and> unique_hashes (committed (run_calls (init_db (connect new_db))
         [Execute (InsertImport sample_import), Execute (InsertImport sample_import), Commit]))"
proof -
  have a: "file_hash sample_import \<in> set (map file_hash (imports_tbl sample_db))"
    by (simp add: sample_db_def)
  have b: "already_imported (connect sample_db) (file_hash sample_import)"
    by (simp add: already_imported_def connect_def view_def sample_db_def)
  have c: "imports_tbl (committed (run_calls (init_db (connect new_db))
         [Execute (InsertImport sample_import), Execute (InsertImport sample_import), Commit]))
       = [sample_import]"
    by (simp add: run_calls_def execute_def step_def run_stmt_def insert_import_file_hash
        connect_def new_db_def view_def begin_txn_def commit_def init_db_def)
  show ?thesis
    using file_hash_unique_in_store [of sample_import sample_db "connect sample_db"
        "[Execute (InsertImport sample_import), Execute (InsertImport sample_import), Commit]"]
      a b c
    by simp
qed

lemma collect_rows_ms:
  "collect_rows L vs = Inr rows \<Longrightarrow> \<forall>r \<in> set rows. 0 < r_ms r"
proof (induction L vs arbitrary: rows rule: collect_rows.induct)
  case (1 L)
  then show ?case by simp
next
  case (2 L obj vs)
  then show ?case
    by (auto split: sum.splits option.splits dest: parse_event_ms)
qed simp_all

lemma rows_of_ms: "rows_of L data = Inr rows \<Longrightarrow> \<forall>r \<in> set rows. 0 < r_ms r"
  by (cases data) (auto simp: rows_of_def dest: collect_rows_ms)

lemma run_stmt_events:
  "run_stmt d s = Inr d' \<Longrightarrow>
     (case s of InsertEvent e \<Rightarrow> events_tbl d' = events_tbl d @ [e] \<and> imports_tbl d' = imports_tbl d
      | InsertImport r \<Rightarrow> events_tbl d' = events_tbl d \<and> imports_tbl d' = imports_tbl d @ [r]
          \<and> file_hash r \<notin> set (map file_hash (imports_tbl d)))"
  by (cases s) (auto simp: run_stmt_def insert_import_Inr dest!: insert_event_Inr)

text \<open>What a run of event inserts leaves in the transaction: a prefix of the rows.\<close>

lemma steps_events:
  "steps c (map InsertEvent evs) = (c', x) \<Longrightarrow>
     \<exists>k \<le> length evs. events_tbl (view c') = events_tbl (view c) @ take k evs
       \<and> imports_tbl (view c') = imports_tbl (view c)
       \<and> (x = None \<longrightarrow> k = length evs)"
proof (induction evs arbitrary: c)
  case Nil
  then show ?case by simp
next
  case (Cons e evs)
  obtain c1 x1 where st: "step c (InsertEvent e) = (c1, x1)"
    by (cases "step c (InsertEvent e)")
  show ?case
  proof (cases x1)
    case None
    from st None have v: "events_tbl (view c1) = events_tbl (view c) @ [e]"
      "imports_tbl (view c1) = imports_tbl (view c)"
      using run_stmt_events [OF step_ok_view] by fastforce+
    from Cons.prems st None have "steps c1 (map InsertEvent evs) = (c', x)"
      by simp
    from Cons.IH [OF this] obtain k where k: "k \<le> length evs"
      "events_tbl (view c') = events_tbl (view c1) @ take k evs"
      "imports_tbl (view c') = imports_tbl (view c1)" "x = None \<longrightarrow> k = length evs"
      by blast
    with v show ?thesis
      by (intro exI [of _ "Suc k"]) simp
  next
    case (Some err)
    with Cons.prems st have "c' = c" "x = Some err"
      using step_err_view by auto
    then show ?thesis
      by (intro exI [of _ 0]) simp
  qed
qed

lemma db_eqI: "imports_tbl d = imports_tbl d' \<Longrightarrow> events_tbl d = events_tbl d' \<Longrightarrow> d = (d' :: db)"
  by simp

lemma execute_import_ok:
  assumes "execute c (InsertImport imp) = (c', None)"
  shows "view c' = (view c)\<lparr>imports_tbl := imports_tbl (view c) @ [imp]\<rparr>
     \<and> file_hash imp \<notin> set (map file_hash (imports_tbl (view c)))
     \<and> committed c' = committed c"
proof -
  have st: "step (begin_txn c) (InsertImport imp) = (c', None)"
    using assms by (simp add: execute_def)
  from step_ok_view [OF st] step_committed [OF st] show ?thesis
    by (auto simp: run_stmt_def insert_import_Inr)
qed

lemma execute_import_err:
  assumes "execute c (InsertImport imp) = (c', Some x)"
  shows "view c' = view c \<and> committed c' = committed c"
proof -
  have st: "step (begin_txn c) (InsertImport imp) = (c', Some x)"
    using assms by (simp add: execute_def)
  from step_err_view [OF st] show ?thesis
    by auto
qed

lemma events_part:
  assumes "(if evs \<noteq> [] then executemany c (map InsertEvent evs) else (c, None)) = (c1, x)"
  shows "\<exists>k \<le> length evs. events_tbl (view c1) = events_tbl (view c) @ take k evs
       \<and> imports_tbl (view c1) = imports_tbl (view c)
       \<and> (x = None \<longrightarrow> k = length evs)"
    and "committed c1 = committed c"
proof -
  show "\<exists>k \<le> length evs. events_tbl (view c1) = events_tbl (view c) @ take k evs
       \<and> imports_tbl (view c1) = imports_tbl (view c)
       \<and> (x = None \<longrightarrow> k = length evs)"
  proof (cases "evs = []")
    case True
    with assms show ?thesis by simp
  next
    case False
    with assms have "steps (begin_txn c) (map InsertEvent evs) = (c1, x)"
      by (simp add: executemany_def)
    from steps_events [OF this] show ?thesis by simp
  qed
  show "committed c1 = committed c"
  proof (cases "evs = []")
    case True
    with assms show ?thesis by simp
  next
    case False
    with assms have "steps (begin_txn c) (map InsertEvent evs) = (c1, x)"
      by (simp add: executemany_def)
    from steps_committed [OF this] show ?thesis by simp
  qed
qed

lemma write_unit_ok:
  assumes "write_unit c evs imp = (c', None)"
  shows "c' = \<lparr>committed = with_unit (view c) evs imp, pending = None\<rparr>"
    and "file_hash imp \<notin> set (map file_hash (imports_tbl (view c)))"
proof -
  obtain c1 x1 where e1: "(if evs \<noteq> [] then executemany c (map InsertEvent evs) else (c, None)) = (c1, x1)"
    by (cases "if evs \<noteq> [] then executemany c (map InsertEvent evs) else (c, None)")
  obtain c2 x2 where e2: "execute c1 (InsertImport imp) = (c2, x2)"
    by (cases "execute c1 (InsertImport imp)")
  from assms e1 e2 have x: "x1 = None" "x2 = None" and c': "c' = commit c2"
    by (auto simp: write_unit_def split: option.splits)
  from events_part(1) [OF e1] x have v1: "events_tbl (view c1) = events_tbl (view c) @ evs"
    "imports_tbl (view c1) = imports_tbl (view c)"
    by auto
  from execute_import_ok [OF e2 [unfolded x]] v1
  have v2: "view c2 = with_unit (view c) evs imp"
    and h: "file_hash imp \<notin> set (map file_hash (imports_tbl (view c)))"
    by (auto simp: with_unit_def intro: db_eqI)
  from c' v2 show "c' = \<lparr>committed = with_unit (view c) evs imp, pending = None\<rparr>"
    by (simp add: commit_def)
  from h show "file_hash imp \<notin> set (map file_hash (imports_tbl (view c)))" .
qed

lemma write_unit_err:
  assumes "write_unit c evs imp = (c', Some x)"
  shows "committed c' = committed c"
    and "\<exists>k \<le> length evs. events_tbl (view c') = events_tbl (view c) @ take k evs
       \<and> imports_tbl (view c') = imports_tbl (view c)"
proof -
  obtain c1 x1 where e1: "(if evs \<noteq> [] then executemany c (map InsertEvent evs) else (c, None)) = (c1, x1)"
    by (cases "if evs \<noteq> [] then executemany c (map InsertEvent evs) else (c, None)")
  obtain c2 x2 where e2: "execute c1 (InsertImport imp) = (c2, x2)"
    by (cases "execute c1 (InsertImport imp)")
  have both: "committed c' = committed c \<and> (\<exists>k \<le> length evs. events_tbl (view c') = events_tbl (view c) @ take k evs
       \<and> imports_tbl (view c') = imports_tbl (view c))"
  proof (cases x1)
    case (Some y)
    with assms e1 have "c' = c1"
      by (simp add: write_unit_def)
    with events_part [OF e1] show ?thesis by blast
  next
    case None
    with assms e1 e2 have x2: "x2 = Some x" and "c' = c2"
      by (auto simp: write_unit_def split: option.splits)
    with execute_import_err [OF e2 [unfolded x2]] events_part [OF e1] show ?thesis
      by auto
  qed
  then show "committed c' = committed c"
    and "\<exists>k \<le> length evs. events_tbl (view c') = events_tbl (view c) @ take k evs
       \<and> imports_tbl (view c') = imports_tbl (view c)"
    by blast+
qed

lemma write_unit_positive:
  assumes "write_unit c evs imp = (c', x)"
    and "positive_ms (view c)" and "positive_ms (committed c)"
    and "\<forall>e \<in> set evs. 0 < ms_played e"
  shows "positive_ms (view c') \<and> positive_ms (committed c')"
proof (cases x)
  case None
  from write_unit_ok(1) [OF assms(1) [unfolded None]] assms(2,4) show ?thesis
    by (auto simp: positive_ms_def with_unit_def view_def)
next
  case (Some err)
  from write_unit_err [OF assms(1) [unfolded Some]] assms(2,3,4) show ?thesis
    by (auto simp: positive_ms_def) (meson in_set_takeD)
qed

lemma ingest_loop_positive:
  "ingest_loop L root_dir files c acc = (c', res) \<Longrightarrow>
   positive_ms (view c) \<Longrightarrow> positive_ms (committed c) \<Longrightarrow>
   positive_ms (view c') \<and> positive_ms (committed c')"
proof (induction L root_dir files c acc arbitrary: c' res rule: ingest_loop.induct)
  case (1 L root_dir c acc)
  then show ?case by simp
next
  case (2 L root_dir f fs c new_files skipped rows_total)
  let ?h = "sha256 L (f_bytes f)"
  show ?case
  proof (cases "already_imported c ?h")
    case True
    with 2 show ?thesis by (simp add: Let_def)
  next
    case False
    show ?thesis
    proof (cases "rows_of L (load_data L f)")
      case (Inl x)
      with False 2 show ?thesis by (simp add: Let_def)
    next
      case (Inr rows)
      let ?imp = "\<lparr>imported_at = now_utc L (new_files + skipped), export_root = root_dir,
                      file_path = f_path f, file_hash = ?h, rows_inserted = length rows\<rparr>"
      obtain c1 x1 where wu: "write_unit c (map (event_of ?h) rows) ?imp = (c1, x1)"
        by (cases "write_unit c (map (event_of ?h) rows) ?imp")
      have pos: "\<forall>e \<in> set (map (event_of ?h) rows). 0 < ms_played e"
        using rows_of_ms [OF Inr] by (simp add: event_of_def)
      from write_unit_positive [OF wu "2.prems"(2,3) pos]
      have p1: "positive_ms (view c1)" "positive_ms (committed c1)"
        by simp_all
      show ?thesis
      proof (cases x1)
        case None
        with False Inr wu "2.prems"(1)
        have "ingest_loop L root_dir fs c1 (new_files + 1, skipped, rows_total + length rows) = (c', res)"
          by (simp add: Let_def)
        from "2.IH"(2) [OF refl False Inr _ _ this p1] wu None show ?thesis
          by simp
      next
        case (Some err)
        with False Inr wu "2.prems"(1) p1 show ?thesis
          by (auto simp: Let_def)
      qed
    qed
  qed
qed

section \<open>Properties of \<^verbatim>\<open>ingest_export\<close>\<close>

lemma sample_run:
  "ingest_export sample_libs (connect new_db) ''/x'' sample_files =
     (connect sample_store,
      Inr \<lparr>s_export_root = ''/x'', files_found = 3, new_files_imported = 3,
           files_skipped = 0, s_rows_inserted = 2\<rparr>)"
  by code_simp

text \<open>
  Claim C4. Every stored event row has \<^verbatim>\<open>ms_played > 0\<close>. A row that \<^verbatim>\<open>parse_event\<close> returns,
  from either branch, carries the milliseconds the branch resolved, and they are
  positive: a record whose resolved value is zero or negative yields no row. And a run
  of \<^verbatim>\<open>ingest_export\<close>, completed or ended by an exception, leaves only positive play
  times in the store, committed or pending, if it found only such.
\<close>

theorem stored_ms_played_positive:
  "(parse_event L obj = Inr (Some r) \<longrightarrow> 0 < r_ms r)
   \<and> (old_format L obj = Inr (Some r) \<longrightarrow>
        py_int L (py_or (get obj ''msPlayed'') (JInt 0)) = Inr (r_ms r) \<and> 0 < r_ms r)
   \<and> (ts_format L obj = Inr (Some r) \<longrightarrow>
        py_int L (py_or (get obj ''ms_played'') (py_or (get obj ''msPlayed'') (JInt 0))) = Inr (r_ms r)
        \<and> 0 < r_ms r)
   \<and> (positive_ms (view c) \<and> positive_ms (committed c) \<longrightarrow>
        positive_ms (view (fst (ingest_export L c root_dir files)))
        \<and> positive_ms (committed (fst (ingest_export L c root_dir files))))"
proof -
  obtain c' res where run: "ingest_loop L root_dir files c (0, 0, 0) = (c', res)"
    by (cases "ingest_loop L root_dir files c (0, 0, 0)")
  then have "fst (ingest_export L c root_dir files) = c'"
    by (auto simp: ingest_export_def split: sum.splits)
  with ingest_loop_positive [OF run] show ?thesis
    using parse_event_ms old_format_row ts_format_row by auto
qed

theorem stored_ms_played_positive_witness:
  "parse_event sample_libs sample_old_obj = Inr (Some sample_old_row)
   \<and> 0 < r_ms sample_old_row
   \<and> parse_event sample_libs
        [(''endTime'', JStr ''2023-05-01 10:00:00''), (''msPlayed'', JInt 0)] = Inr None
   \<and> parse_event sample_libs
        [(''ts'', JStr ''2023-05-01T08:00:00Z''), (''ms_played'', JInt (- 5))] = Inr None
   \<and> positive_ms (view (connect new_db)) \<and> positive_ms (committed (connect new_db))
   \<and> fst (ingest_export sample_libs (connect new_db) ''/x'' sample_files) = connect sample_store
   \<and> positive_ms (committed (connect sample_store))"
proof -
  have z: "parse_event sample_libs
        [(''endTime'', JStr ''2023-05-01 10:00:00''), (''msPlayed'', JInt 0)] = Inr None"
    by code_simp
  have n: "parse_event sample_libs
        [(''ts'', JStr ''2023-05-01T08:00:00Z''), (''ms_played'', JInt (- 5))] = Inr None"
    by code_simp
  have p: "positive_ms (view (connect new_db))" "positive_ms (committed (connect new_db))"
    by (simp_all add: positive_ms_def connect_def view_def new_db_def)
  show ?thesis
    using stored_ms_played_positive [of sample_libs sample_old_obj sample_old_row
        "connect new_db" "''/x''" sample_files] sample_old_parse p z n sample_run
    by simp
qed






lemma ingest_loop_hashes_mono:
  "ingest_loop L root_dir files c acc = (c', res) \<Longrightarrow>
   set (map file_hash (imports_tbl (view c))) \<subseteq> set (map file_hash (imports_tbl (view c')))"
proof (induction L root_dir files c acc arbitrary: c' res rule: ingest_loop.induct)
  case (1 L root_dir c acc)
  then show ?case by simp
next
  case (2 L root_dir f fs c new_files skipped rows_total)
  let ?h = "sha256 L (f_bytes f)"
  show ?case
  proof (cases "already_imported c ?h")
    case True
    with 2 show ?thesis by (simp add: Let_def)
  next
    case False
    show ?thesis
    proof (cases "rows_of L (load_data L f)")
      case (Inl x)
      with False 2 show ?thesis by (simp add: Let_def)
    next
      case (Inr rows)
      let ?imp = "\<lparr>imported_at = now_utc L (new_files + skipped), export_root = root_dir,
                      file_path = f_path f, file_hash = ?h, rows_inserted = length rows\<rparr>"
      obtain c1 x1 where wu: "write_unit c (map (event_of ?h) rows) ?imp = (c1, x1)"
        by (cases "write_unit c (map (event_of ?h) rows) ?imp")
      show ?thesis
      proof (cases x1)
        case None
        with False Inr wu "2.prems"(1)
        have run: "ingest_loop L root_dir fs c1 (new_files + 1, skipped, rows_total + length rows) = (c', res)"
          by (simp add: Let_def)
        have "set (map file_hash (imports_tbl (view c1))) \<subseteq> set (map file_hash (imports_tbl (view c')))"
          using "2.IH"(2) [OF refl False Inr _ _ run] wu None by simp
        moreover have "imports_tbl (view c1) = imports_tbl (view c) @ [?imp]"
          using write_unit_ok(1) [OF wu [unfolded None]] by (simp add: view_def with_unit_def)
        ultimately show ?thesis by auto
      next
        case (Some err)
        with False Inr wu "2.prems"(1) have "c' = c1"
          by (auto simp: Let_def)
        with write_unit_err(2) [OF wu [unfolded Some]] show ?thesis by auto
      qed
    qed
  qed
qed

lemma ingest_loop_all_imported:
  "ingest_loop L root_dir files c acc = (c', Inr acc') \<Longrightarrow>
   \<forall>f \<in> set files. already_imported c' (sha256 L (f_bytes f))"
proof (induction L root_dir files c acc arbitrary: c' acc' rule: ingest_loop.induct)
  case (1 L root_dir c acc)
  then show ?case by simp
next
  case (2 L root_dir f fs c new_files skipped rows_total)
  let ?h = "sha256 L (f_bytes f)"
  show ?case
  proof (cases "already_imported c ?h")
    case True
    with "2.prems" have run: "ingest_loop L root_dir fs c (new_files, skipped + 1, rows_total) = (c', Inr acc')"
      by (simp add: Let_def)
    from "2.IH"(1) [OF refl True run] ingest_loop_hashes_mono [OF run] True show ?thesis
      by (auto simp: already_imported_def)
  next
    case False
    show ?thesis
    proof (cases "rows_of L (load_data L f)")
      case (Inl x)
      with False "2.prems" show ?thesis by (simp add: Let_def)
    next
      case (Inr rows)
      let ?imp = "\<lparr>imported_at = now_utc L (new_files + skipped), export_root = root_dir,
                      file_path = f_path f, file_hash = ?h, rows_inserted = length rows\<rparr>"
      obtain c1 x1 where wu: "write_unit c (map (event_of ?h) rows) ?imp = (c1, x1)"
        by (cases "write_unit c (map (event_of ?h) rows) ?imp")
      show ?thesis
      proof (cases x1)
        case None
        with False Inr wu "2.prems"(1)
        have run: "ingest_loop L root_dir fs c1 (new_files + 1, skipped, rows_total + length rows) = (c', Inr acc')"
          by (simp add: Let_def)
        have "imports_tbl (view c1) = imports_tbl (view c) @ [?imp]"
          using write_unit_ok(1) [OF wu [unfolded None]] by (simp add: view_def with_unit_def)
        then have "already_imported c1 ?h"
          by (simp add: already_imported_def)
        with ingest_loop_hashes_mono [OF run] have "already_imported c' ?h"
          by (auto simp: already_imported_def)
        moreover have "\<forall>f \<in> set fs. already_imported c' (sha256 L (f_bytes f))"
          using "2.IH"(2) [OF refl False Inr _ _ run] wu None by simp
        ultimately show ?thesis by simp
      next
        case (Some err)
        with False Inr wu "2.prems"(1) show ?thesis
          by (auto simp: Let_def)
      qed
    qed
  qed
qed

lemma ingest_loop_all_skipped:
  "\<forall>f \<in> set files. already_imported c (sha256 L (f_bytes f)) \<Longrightarrow>
   ingest_loop L root_dir files c (new_files, skipped, rows_total)
     = (c, Inr (new_files, skipped + length files, rows_total))"
  by (induction files arbitrary: skipped) (simp_all add: Let_def)

lemma step_view:
  assumes "view a = view b"
  shows "snd (step a s) = snd (step b s) \<and> view (fst (step a s)) = view (fst (step b s))"
proof (cases "run_stmt (view a) s")
  case (Inl x)
  moreover from Inl assms have "run_stmt (view b) s = Inl x"
    by simp
  ultimately show ?thesis
    using assms by (simp add: step_def)
next
  case (Inr d)
  moreover from Inr assms have "run_stmt (view b) s = Inr d"
    by simp
  ultimately show ?thesis
    by (simp add: step_def view_def)
qed

lemma steps_view:
  "view a = view b \<Longrightarrow>
   snd (steps a ss) = snd (steps b ss) \<and> view (fst (steps a ss)) = view (fst (steps b ss))"
proof (induction ss arbitrary: a b)
  case Nil
  then show ?case by simp
next
  case (Cons s ss)
  obtain a1 x1 where sa: "step a s = (a1, x1)" by (cases "step a s")
  obtain b1 y1 where sb: "step b s = (b1, y1)" by (cases "step b s")
  from step_view [OF Cons.prems, of s] sa sb have eq: "x1 = y1" "view a1 = view b1"
    by simp_all
  show ?case
  proof (cases x1)
    case None
    with sa sb eq Cons.IH [OF eq(2)] show ?thesis by simp
  next
    case (Some err)
    with sa sb eq show ?thesis by auto
  qed
qed

lemma write_unit_view:
  assumes "view a = view b" and "file_hash imp = file_hash imp'"
  shows "snd (write_unit a evs imp) = snd (write_unit b evs imp')"
proof -
  let ?ea = "if evs \<noteq> [] then executemany a (map InsertEvent evs) else (a, None)"
  let ?eb = "if evs \<noteq> [] then executemany b (map InsertEvent evs) else (b, None)"
  obtain a1 x1 where ea: "?ea = (a1, x1)" by (cases ?ea)
  obtain b1 y1 where eb: "?eb = (b1, y1)" by (cases ?eb)
  have "view (begin_txn a) = view (begin_txn b)"
    using assms(1) by simp
  from steps_view [OF this, of "map InsertEvent evs"] ea eb assms(1)
  have eq: "x1 = y1" "view a1 = view b1"
    by (auto simp: executemany_def split: if_splits)
  obtain a2 x2 where ia: "execute a1 (InsertImport imp) = (a2, x2)"
    by (cases "execute a1 (InsertImport imp)")
  obtain b2 y2 where ib: "execute b1 (InsertImport imp') = (b2, y2)"
    by (cases "execute b1 (InsertImport imp')")
  have "x2 = y2"
    using ia ib eq(2) assms(2)
    by (auto simp: execute_def step_def run_stmt_def insert_import_file_hash split: if_splits)
  with ea eb ia ib eq have ea': "?ea = (a1, y1)" and ia': "execute a1 (InsertImport imp) = (a2, y2)"
    by simp_all
  from ea' eb ia' ib show ?thesis
    by (cases y1; cases y2) (simp_all add: write_unit_def)
qed

lemma ingest_loop_committed_mono:
  "ingest_loop L root_dir files c acc = (c1, res) \<Longrightarrow> pending c = None \<Longrightarrow>
   set (map file_hash (imports_tbl (committed c))) \<subseteq> set (map file_hash (imports_tbl (committed c1)))"
proof (induction L root_dir files c acc arbitrary: c1 res rule: ingest_loop.induct)
  case (1 L root_dir c acc)
  then show ?case by simp
next
  case (2 L root_dir f fs c new_files skipped rows_total)
  let ?h = "sha256 L (f_bytes f)"
  show ?case
  proof (cases "already_imported c ?h")
    case True
    with 2 show ?thesis by (simp add: Let_def)
  next
    case False
    show ?thesis
    proof (cases "rows_of L (load_data L f)")
      case (Inl x)
      with False 2 show ?thesis by (simp add: Let_def)
    next
      case (Inr rows)
      let ?imp = "\<lparr>imported_at = now_utc L (new_files + skipped), export_root = root_dir,
                      file_path = f_path f, file_hash = ?h, rows_inserted = length rows\<rparr>"
      obtain c' x1 where wu: "write_unit c (map (event_of ?h) rows) ?imp = (c', x1)"
        by (cases "write_unit c (map (event_of ?h) rows) ?imp")
      show ?thesis
      proof (cases x1)
        case None
        with False Inr wu "2.prems"(1)
        have run: "ingest_loop L root_dir fs c' (new_files + 1, skipped, rows_total + length rows) = (c1, res)"
          by (simp add: Let_def)
        from write_unit_ok(1) [OF wu [unfolded None]] "2.prems"(2)
        have c': "pending c' = None" "imports_tbl (committed c') = imports_tbl (committed c) @ [?imp]"
          by (simp_all add: with_unit_def view_def)
        from "2.IH"(2) [OF refl False Inr _ _ run c'(1)] wu None c'(2) show ?thesis
          by auto
      next
        case (Some err)
        with False Inr wu "2.prems"(1) have "c1 = c'"
          by (auto simp: Let_def)
        with write_unit_err(1) [OF wu [unfolded Some]] show ?thesis by simp
      qed
    qed
  qed
qed

lemma aborted_run_repeats:
  "ingest_loop L root_dir files c acc = (c1, Inl x) \<Longrightarrow> pending c = None \<Longrightarrow>
   pending c0 = None \<Longrightarrow> committed c0 = committed c1 \<Longrightarrow>
   snd (ingest_loop L root_dir files c0 acc') = Inl x
   \<and> committed (fst (ingest_loop L root_dir files c0 acc')) = committed c1"
proof (induction L root_dir files c acc arbitrary: acc' rule: ingest_loop.induct)
  case (1 L root_dir c acc)
  then show ?case by simp
next
  case (2 L root_dir f fs c new_files skipped rows_total)
  let ?h = "sha256 L (f_bytes f)"
  obtain n' s' t' where acc': "acc' = (n', s', t')"
    by (cases acc')
  have v0: "view c0 = committed c1"
    using "2.prems"(3,4) by (simp add: view_def)
  have v: "view c = committed c"
    using "2.prems"(2) by (simp add: view_def)
  have mono: "set (map file_hash (imports_tbl (committed c)))
      \<subseteq> set (map file_hash (imports_tbl (committed c1)))"
    using ingest_loop_committed_mono [OF "2.prems"(1,2)] .
  show ?case
  proof (cases "already_imported c ?h")
    case True
    with "2.prems"(1)
    have run: "ingest_loop L root_dir fs c (new_files, skipped + 1, rows_total) = (c1, Inl x)"
      by (simp add: Let_def)
    from True v mono v0 have "already_imported c0 ?h"
      by (auto simp: already_imported_def)
    with "2.IH"(1) [OF refl True run "2.prems"(2,3,4), of "(n', s' + 1, t')"] acc'
    show ?thesis
      by (simp add: Let_def)
  next
    case False
    show ?thesis
    proof (cases "rows_of L (load_data L f)")
      case (Inl y)
      with False "2.prems"(1) have c1: "c1 = c" and y: "y = x"
        by (simp_all add: Let_def)
      with False v v0 have "\<not> already_imported c0 ?h"
        by (simp add: already_imported_def)
      with Inl y acc' "2.prems"(4) show ?thesis
        by (simp add: Let_def)
    next
      case (Inr rows)
      let ?evs = "map (event_of ?h) rows"
      let ?imp = "\<lparr>imported_at = now_utc L (new_files + skipped), export_root = root_dir,
                      file_path = f_path f, file_hash = ?h, rows_inserted = length rows\<rparr>"
      let ?imp' = "\<lparr>imported_at = now_utc L (n' + s'), export_root = root_dir,
                      file_path = f_path f, file_hash = ?h, rows_inserted = length rows\<rparr>"
      obtain c' x1 where wu: "write_unit c ?evs ?imp = (c', x1)"
        by (cases "write_unit c ?evs ?imp")
      show ?thesis
      proof (cases x1)
        case None
        with False Inr wu "2.prems"(1)
        have run: "ingest_loop L root_dir fs c' (new_files + 1, skipped, rows_total + length rows) = (c1, Inl x)"
          by (simp add: Let_def)
        from write_unit_ok(1) [OF wu [unfolded None]]
        have c': "pending c' = None" "imports_tbl (committed c') = imports_tbl (view c) @ [?imp]"
          by (simp_all add: with_unit_def)
        from ingest_loop_committed_mono [OF run c'(1)] c'(2) v0
        have "already_imported c0 ?h"
          by (auto simp: already_imported_def)
        with "2.IH"(2) [OF refl False Inr _ _ run c'(1) "2.prems"(3,4), where acc' = "(n', s' + 1, t')"]
          wu None acc'
        show ?thesis
          by (simp add: Let_def)
      next
        case (Some err)
        with False Inr wu "2.prems"(1) have c1: "c1 = c'" and err: "err = x"
          by (auto simp: Let_def)
        from write_unit_err(1) [OF wu [unfolded Some]] c1 have cc: "committed c1 = committed c"
          by simp
        with v v0 have vv: "view c = view c0"
          by simp
        with False have ni: "\<not> already_imported c0 ?h"
          by (simp add: already_imported_def)
        obtain c0' y where wu0: "write_unit c0 ?evs ?imp' = (c0', y)"
          by (cases "write_unit c0 ?evs ?imp'")
        from write_unit_view [OF vv, of ?imp ?imp' ?evs] wu wu0 Some err have y: "y = Some x"
          by simp
        from write_unit_err(1) [OF wu0 [unfolded y]] "2.prems"(4)
        have "committed c0' = committed c1"
          by simp
        with ni Inr wu0 y acc' show ?thesis
          by (simp add: Let_def)
      qed
    qed
  qed
qed

text \<open>
  Claim C3. Ingestion is idempotent: when a run over a list of files has returned its
  summary, a second run over the same files leaves the connection, and with it both
  tables, exactly as the first run left them; it imports no file, inserts no row, and
  skips as many files as the first run found. And when the first run, started with no
  open transaction, was ended by an exception, a second run on a new connection to the
  same database ends with the same exception and leaves the committed store as it was.
\<close>

theorem ingest_idempotent:
  "(ingest_export L c root_dir files = (c1, Inr s1) \<longrightarrow>
      ingest_export L c1 root_dir files =
        (c1, Inr \<lparr>s_export_root = root_dir, files_found = length files,
                  new_files_imported = 0, files_skipped = files_found s1,
                  s_rows_inserted = 0\<rparr>)
      \<and> files_found s1 = length files)
   \<and> (pending c = None \<and> ingest_export L c root_dir files = (c1, Inl x) \<longrightarrow>
      snd (ingest_export L (rollback c1) root_dir files) = Inl x
      \<and> committed (fst (ingest_export L (rollback c1) root_dir files)) = committed c1)"
proof -
  have completed: "ingest_export L c root_dir files = (c1, Inr s1) \<longrightarrow>
      ingest_export L c1 root_dir files =
        (c1, Inr \<lparr>s_export_root = root_dir, files_found = length files,
                  new_files_imported = 0, files_skipped = files_found s1,
                  s_rows_inserted = 0\<rparr>)
      \<and> files_found s1 = length files"
  proof
    assume first: "ingest_export L c root_dir files = (c1, Inr s1)"
    then obtain acc where run: "ingest_loop L root_dir files c (0, 0, 0) = (c1, Inr acc)"
      and s1: "files_found s1 = length files"
      by (auto simp: ingest_export_def split: prod.splits sum.splits)
    from ingest_loop_all_skipped [OF ingest_loop_all_imported [OF run], of root_dir 0 0 0] s1
    show "ingest_export L c1 root_dir files =
        (c1, Inr \<lparr>s_export_root = root_dir, files_found = length files,
                  new_files_imported = 0, files_skipped = files_found s1,
                  s_rows_inserted = 0\<rparr>)
      \<and> files_found s1 = length files"
      by (simp add: ingest_export_def)
  qed
  have aborted: "pending c = None \<and> ingest_export L c root_dir files = (c1, Inl x) \<longrightarrow>
      snd (ingest_export L (rollback c1) root_dir files) = Inl x
      \<and> committed (fst (ingest_export L (rollback c1) root_dir files)) = committed c1"
  proof
    assume "pending c = None \<and> ingest_export L c root_dir files = (c1, Inl x)"
    then have p: "pending c = None" and run: "ingest_loop L root_dir files c (0, 0, 0) = (c1, Inl x)"
      by (auto simp: ingest_export_def split: prod.splits sum.splits)
    obtain c2 res where again: "ingest_loop L root_dir files (rollback c1) (0, 0, 0) = (c2, res)"
      by (cases "ingest_loop L root_dir files (rollback c1) (0, 0, 0)")
    have "pending (rollback c1) = None" "committed (rollback c1) = committed c1"
      by (simp_all add: rollback_def)
    from aborted_run_repeats [OF run p this, of "(0, 0, 0)"] again
    have "res = Inl x" "committed c2 = committed c1"
      by simp_all
    with again
    show "snd (ingest_export L (rollback c1) root_dir files) = Inl x
      \<and> committed (fst (ingest_export L (rollback c1) root_dir files)) = committed c1"
      by (simp add: ingest_export_def)
  qed
  from completed aborted show ?thesis ..
qed

lemma sample_aborted_run:
  "ingest_export sample_libs (connect new_db) ''/x'' sample_abort_files =
     (connect (with_unit new_db [event_of ''old'' sample_old_row] sample_old_import),
      Inl ValueError)"
  by code_simp

theorem ingest_idempotent_witness:
  "ingest_export sample_libs (connect new_db) ''/x'' sample_files =
     (connect sample_store,
      Inr \<lparr>s_export_root = ''/x'', files_found = 3, new_files_imported = 3,
           files_skipped = 0, s_rows_inserted = 2\<rparr>)
   \<and> ingest_export sample_libs (connect sample_store) ''/x'' sample_files =
     (connect sample_store,
      Inr \<lparr>s_export_root = ''/x'', files_found = 3, new_files_imported = 0,
           files_skipped = 3, s_rows_inserted = 0\<rparr>)
   \<and> pending (connect new_db) = None
   \<and> ingest_export sample_libs (connect new_db) ''/x'' sample_abort_files =
     (connect (with_unit new_db [event_of ''old'' sample_old_row] sample_old_import),
      Inl ValueError)
   \<and> snd (ingest_export sample_libs
          (rollback (connect (with_unit new_db [event_of ''old'' sample_old_row] sample_old_import)))
          ''/x'' sample_abort_files) = Inl ValueError
   \<and> committed (fst (ingest_export sample_libs
          (rollback (connect (with_unit new_db [event_of ''old'' sample_old_row] sample_old_import)))
          ''/x'' sample_abort_files))
       = with_unit new_db [event_of ''old'' sample_old_row] sample_old_import"
proof -
  have p: "pending (connect new_db) = None"
    by (simp add: connect_def)
  have cm: "committed (connect (with_unit new_db [event_of ''old'' sample_old_row] sample_old_import))
      = with_unit new_db [event_of ''old'' sample_old_row] sample_old_import"
    by (simp add: connect_def)
  show ?thesis
    using ingest_idempotent [of sample_libs "connect new_db" "''/x''" sample_files
        "connect sample_store"
        "\<lparr>s_export_root = ''/x'', files_found = 3, new_files_imported = 3,
           files_skipped = 0, s_rows_inserted = 2\<rparr>"]
      ingest_idempotent [of sample_libs "connect new_db" "''/x''" sample_abort_files
        "connect (with_unit new_db [event_of ''old'' sample_old_row] sample_old_import)" _
        ValueError]
      sample_run sample_aborted_run p cm
    by (simp add: sample_files_def)
qed

section \<open>A single bad record\<close>

lemma parse_event_parser_error:
  "has_key obj ''endTime'' \<Longrightarrow> has_key obj ''msPlayed'' \<Longrightarrow>
   parse L (get obj ''endTime'') = Inl x \<Longrightarrow> parse_event L obj = Inl x"
  by (simp add: parse_event_def old_format_def)

lemma collect_rows_raises:
  "parse_event L obj = Inl x \<Longrightarrow> collect_rows L (JObj obj # vs) = Inl x"
  by simp

text \<open>
  Claim C2, which the program does not meet. \<^verbatim>\<open>parse_event\<close> raises on a record of the
  old format whose \<^verbatim>\<open>msPlayed\<close> is the text \<^verbatim>\<open>abc\<close>, on one whose \<^verbatim>\<open>endTime\<close> is not a date, and
  on a record of the \<^verbatim>\<open>ts\<close> format whose \<^verbatim>\<open>ts\<close> is \<^verbatim>\<open>null\<close>. Nothing around the call catches the
  exception: a run over a file with such a record followed by a good file ends with the
  error and imports neither.
\<close>

theorem single_bad_record_raises:
  "parse_event sample_libs sample_bad_obj = Inl ValueError
   \<and> parse_event sample_libs [(''endTime'', JStr ''garbage''), (''msPlayed'', JInt 1000)]
       = Inl ValueError
   \<and> parse_event sample_libs [(''ts'', JNull), (''ms_played'', JInt 1000)] = Inl TypeError
   \<and> ingest_export sample_libs (connect new_db) ''/x''
        [\<lparr>f_path = ''/x/endsong_1.json'', f_bytes = ''bad record''\<rparr>,
         \<lparr>f_path = ''/x/StreamingHistory0.json'', f_bytes = ''old''\<rparr>]
       = (connect new_db, Inl ValueError)"
  by code_simp

section \<open>Atomicity of the file unit\<close>

lemma consistent_with_unit:
  assumes "consistent d"
    and "file_hash imp \<notin> set (map file_hash (imports_tbl d))"
    and "\<forall>e \<in> set evs. source_file_hash e = file_hash imp"
    and "rows_inserted imp = length evs"
  shows "consistent (with_unit d evs imp)"
proof -
  from assms(1) have dist: "distinct (map file_hash (imports_tbl d))"
    and refs: "\<forall>e \<in> set (events_tbl d). source_file_hash e \<in> set (map file_hash (imports_tbl d))"
    and cnt: "\<forall>i \<in> set (imports_tbl d).
            length (filter (\<lambda>e. source_file_hash e = file_hash i) (events_tbl d)) = rows_inserted i"
    by (simp_all add: consistent_def)
  have old: "filter (\<lambda>e. source_file_hash e = file_hash imp) (events_tbl d) = []"
  proof -
    have "source_file_hash e \<noteq> file_hash imp" if "e \<in> set (events_tbl d)" for e
      using refs that assms(2) by metis
    then show ?thesis
      by (simp add: filter_empty_conv)
  qed
  have new: "filter (\<lambda>e. source_file_hash e = file_hash imp) evs = evs"
    using assms(3) by (simp add: filter_id_conv)
  have other: "filter (\<lambda>e. source_file_hash e = file_hash i) evs = []"
    if "i \<in> set (imports_tbl d)" for i
  proof -
    from that have "file_hash i \<in> set (map file_hash (imports_tbl d))"
      by simp
    with assms(2) have "file_hash i \<noteq> file_hash imp"
      by metis
    with assms(3) show ?thesis
      by (simp add: filter_empty_conv)
  qed
  have 1: "distinct (map file_hash (imports_tbl d @ [imp]))"
    using dist assms(2) by simp
  have 2: "\<forall>e \<in> set (events_tbl d @ evs).
       source_file_hash e \<in> set (map file_hash (imports_tbl d @ [imp]))"
    using refs assms(3) by auto
  have 3: "\<forall>i \<in> set (imports_tbl d @ [imp]).
       length (filter (\<lambda>e. source_file_hash e = file_hash i) (events_tbl d @ evs)) = rows_inserted i"
    using cnt old new other assms(4) by auto
  from 1 2 3 show ?thesis
    by (simp add: consistent_def with_unit_def)
qed

lemma steps_trace_committed:
  "c' \<in> set (steps_trace c ss) \<Longrightarrow> committed c' = committed c"
proof (induction ss arbitrary: c)
  case Nil
  then show ?case by simp
next
  case (Cons s ss)
  obtain c1 x1 where st: "step c s = (c1, x1)"
    by (cases "step c s")
  with Cons show ?case
    by (cases x1) (auto dest: step_committed)
qed

lemma steps_trace_last: "last (c # steps_trace c ss) = fst (steps c ss)"
proof (induction ss arbitrary: c)
  case Nil
  then show ?case by simp
next
  case (Cons s ss)
  obtain c1 x1 where st: "step c s = (c1, x1)"
    by (cases "step c s")
  show ?case
  proof (cases x1)
    case None
    with st Cons [of c1] show ?thesis by simp
  next
    case (Some err)
    with st show ?thesis by simp
  qed
qed

lemma write_unit_trace_last: "last (c # write_unit_trace c evs imp) = fst (write_unit c evs imp)"
proof -
  obtain c1 x1 where e1: "(if evs \<noteq> [] then executemany c (map InsertEvent evs) else (c, None)) = (c1, x1)"
    by (cases "if evs \<noteq> [] then executemany c (map InsertEvent evs) else (c, None)")
  obtain c2 x2 where e2: "execute c1 (InsertImport imp) = (c2, x2)"
    by (cases "execute c1 (InsertImport imp)")
  show ?thesis
  proof (cases x1)
    case (Some err)
    with e1 have ne: "evs \<noteq> []"
      by (auto split: if_splits)
    with e1 have "fst (steps (begin_txn c) (map InsertEvent evs)) = c1"
      by (simp add: executemany_def)
    with steps_trace_last [of "begin_txn c" "map InsertEvent evs"]
    have "last (begin_txn c # steps_trace (begin_txn c) (map InsertEvent evs)) = c1"
      by simp
    with e1 Some ne show ?thesis
      by (simp add: write_unit_trace_def write_unit_def)
  next
    case None
    with e1 e2 show ?thesis
      by (cases x2) (simp_all add: write_unit_trace_def write_unit_def Let_def)
  qed
qed

lemma write_unit_trace_committed:
  assumes "c' \<in> set (write_unit_trace c evs imp)"
  shows "committed c' = committed c \<or> committed c' = with_unit (view c) evs imp"
proof -
  obtain c1 x1 where e1: "(if evs \<noteq> [] then executemany c (map InsertEvent evs) else (c, None)) = (c1, x1)"
    by (cases "if evs \<noteq> [] then executemany c (map InsertEvent evs) else (c, None)")
  obtain c2 x2 where e2: "execute c1 (InsertImport imp) = (c2, x2)"
    by (cases "execute c1 (InsertImport imp)")
  let ?t1 = "if evs \<noteq> [] then begin_txn c # steps_trace (begin_txn c) (map InsertEvent evs) else []"
  have t1: "committed a = committed c" if "a \<in> set ?t1" for a
    using that steps_trace_committed [of a "begin_txn c"] by (auto split: if_splits)
  have c1: "committed c1 = committed c"
    using events_part(2) [OF e1] .
  have c2: "committed c2 = committed c"
  proof -
    have "step (begin_txn c1) (InsertImport imp) = (c2, x2)"
      using e2 by (simp add: execute_def)
    from step_committed [OF this] c1 show ?thesis by simp
  qed
  have early: "committed a = committed c"
    if "a \<in> set ?t1 \<or> a = begin_txn c1 \<or> a = c2" for a
  proof -
    from that consider "a \<in> set ?t1" | "a = begin_txn c1" | "a = c2"
      by blast
    then show ?thesis
    proof cases
      case 1
      then show ?thesis by (rule t1)
    next
      case 2
      with c1 show ?thesis by simp
    next
      case 3
      with c2 show ?thesis by simp
    qed
  qed
  show ?thesis
  proof (cases x1)
    case (Some err)
    with assms e1 have "c' \<in> set ?t1"
      by (simp add: write_unit_trace_def Let_def)
    then show ?thesis
      using t1 by blast
  next
    case None
    show ?thesis
    proof (cases x2)
      case (Some err)
      with assms e1 e2 None have "c' \<in> set ?t1 \<or> c' = begin_txn c1 \<or> c' = c2"
        by (auto simp: write_unit_trace_def Let_def)
      then have "committed c' = committed c"
        by (rule early)
      then show ?thesis ..
    next
      case n2: None
      with assms e1 e2 None
      have mem: "(c' \<in> set ?t1 \<or> c' = begin_txn c1 \<or> c' = c2) \<or> c' = commit c2"
        by (auto simp: write_unit_trace_def Let_def)
      have "write_unit c evs imp = (commit c2, None)"
        using e1 e2 None n2 by (simp add: write_unit_def)
      from write_unit_ok(1) [OF this] have fin: "committed (commit c2) = with_unit (view c) evs imp"
        by simp
      from mem show ?thesis
      proof
        assume "c' \<in> set ?t1 \<or> c' = begin_txn c1 \<or> c' = c2"
        then have "committed c' = committed c"
          by (rule early)
        then show ?thesis ..
      next
        assume "c' = commit c2"
        with fin show ?thesis by simp
      qed
    qed
  qed
qed

lemma last_append_trace: "last (c # A @ B) = last (last (c # A) # B)"
  by (cases B) (simp_all add: last_append)

lemma view_no_pending: "pending c = None \<Longrightarrow> view c = committed c"
  by (simp add: view_def)

lemma ingest_trace_last:
  "last (c # ingest_trace L root_dir files c acc) = fst (ingest_loop L root_dir files c acc)"
proof (induction L root_dir files c acc rule: ingest_loop.induct)
  case (1 L root_dir c acc)
  then show ?case by simp
next
  case (2 L root_dir f fs c new_files skipped rows_total)
  let ?h = "sha256 L (f_bytes f)"
  show ?case
  proof (cases "already_imported c ?h")
    case True
    with "2.IH"(1) [OF refl True] show ?thesis by (simp add: Let_def)
  next
    case False
    show ?thesis
    proof (cases "rows_of L (load_data L f)")
      case (Inl x)
      with False show ?thesis by (simp add: Let_def)
    next
      case (Inr rows)
      let ?evs = "map (event_of ?h) rows"
      let ?imp = "\<lparr>imported_at = now_utc L (new_files + skipped), export_root = root_dir,
                      file_path = f_path f, file_hash = ?h, rows_inserted = length rows\<rparr>"
      obtain c1 x1 where wu: "write_unit c ?evs ?imp = (c1, x1)"
        by (cases "write_unit c ?evs ?imp")
      have l1: "last (c # write_unit_trace c ?evs ?imp) = c1"
        using write_unit_trace_last [of c ?evs ?imp] wu by simp
      show ?thesis
      proof (cases x1)
        case None
        have "last (c1 # ingest_trace L root_dir fs c1 (new_files + 1, skipped, rows_total + length rows))
            = fst (ingest_loop L root_dir fs c1 (new_files + 1, skipped, rows_total + length rows))"
          using "2.IH"(2) [OF refl False Inr _ _] wu None by simp
        with False Inr wu None l1 show ?thesis
          by (simp add: Let_def last_append_trace del: last.simps)
      next
        case (Some err)
        with False Inr wu l1 show ?thesis
          by (simp add: Let_def del: last.simps)
      qed
    qed
  qed
qed

lemma ingest_trace_consistent:
  "pending c = None \<Longrightarrow> consistent (committed c) \<Longrightarrow>
   c' \<in> set (ingest_trace L root_dir files c acc) \<Longrightarrow> consistent (committed c')"
proof (induction L root_dir files c acc rule: ingest_loop.induct)
  case (1 L root_dir c acc)
  then show ?case by simp
next
  case (2 L root_dir f fs c new_files skipped rows_total)
  let ?h = "sha256 L (f_bytes f)"
  show ?case
  proof (cases "already_imported c ?h")
    case True
    with "2.IH"(1) [OF refl True] "2.prems" show ?thesis by (simp add: Let_def)
  next
    case False
    show ?thesis
    proof (cases "rows_of L (load_data L f)")
      case (Inl x)
      with False "2.prems" show ?thesis by (simp add: Let_def)
    next
      case (Inr rows)
      let ?evs = "map (event_of ?h) rows"
      let ?imp = "\<lparr>imported_at = now_utc L (new_files + skipped), export_root = root_dir,
                      file_path = f_path f, file_hash = ?h, rows_inserted = length rows\<rparr>"
      obtain c1 x1 where wu: "write_unit c ?evs ?imp = (c1, x1)"
        by (cases "write_unit c ?evs ?imp")
      have v: "view c = committed c"
        using "2.prems"(1) by (rule view_no_pending)
      have fresh: "file_hash ?imp \<notin> set (map file_hash (imports_tbl (committed c)))"
        using False v by (simp add: already_imported_def)
      have unit: "consistent (with_unit (committed c) ?evs ?imp)"
        by (rule consistent_with_unit [OF "2.prems"(2) fresh]) (simp_all add: event_of_def)
      let ?rest = "case x1 of None \<Rightarrow>
          ingest_trace L root_dir fs c1 (new_files + 1, skipped, rows_total + length rows)
        | Some x \<Rightarrow> []"
      have split: "c' \<in> set (write_unit_trace c ?evs ?imp) \<or> c' \<in> set ?rest"
        using "2.prems"(3) False Inr wu by (cases x1) (simp_all add: Let_def)
      then show ?thesis
      proof
        assume "c' \<in> set (write_unit_trace c ?evs ?imp)"
        from write_unit_trace_committed [OF this] v "2.prems"(2) unit show ?thesis
          by auto
      next
        assume rest: "c' \<in> set ?rest"
        show ?thesis
        proof (cases x1)
          case None
          from write_unit_ok(1) [OF wu [unfolded None]] v
          have c1: "pending c1 = None" "committed c1 = with_unit (committed c) ?evs ?imp"
            by simp_all
          from rest None
          have "c' \<in> set (ingest_trace L root_dir fs c1 (new_files + 1, skipped, rows_total + length rows))"
            by simp
          with "2.IH"(2) [OF refl False Inr _ _ c1(1)] wu None c1(2) unit show ?thesis
            by simp
        next
          case (Some err)
          with rest show ?thesis by simp
        qed
      qed
    qed
  qed
qed

lemma event_of_stored: "event_of h r = stored_event h r"
  by (simp add: event_of_def stored_event_def)

lemma collect_rows_accepted:
  "collect_rows L vs = Inr rows \<Longrightarrow> rows = concat (map (accepted_of L) vs)"
proof (induction L vs arbitrary: rows rule: collect_rows.induct)
  case (1 L)
  then show ?case by simp
next
  case (2 L obj vs)
  then show ?case
    by (auto simp: accepted_of_def split: sum.splits option.splits)
qed (simp_all add: accepted_of_def)

lemma rows_of_accepted:
  "rows_of L (load_data L f) = Inr rows \<Longrightarrow> rows = accepted_rows L f"
  by (auto simp: rows_of_def load_data_def accepted_rows_def file_objects_def
      dest: collect_rows_accepted split: sum.splits json.splits)

lemma accepted_rows_bytes: "f_bytes g = f_bytes f \<Longrightarrow> accepted_rows L g = accepted_rows L f"
  by (simp add: accepted_rows_def file_objects_def)

lemma absent_iff_not_imported:
  "filter (\<lambda>i. file_hash i = h) (imports_tbl d) = [] \<longleftrightarrow> h \<notin> set (map file_hash (imports_tbl d))"
  by (force simp: filter_empty_conv)

lemma units_whole_with_unit:
  assumes whole: "units_whole L files d"
    and f: "f \<in> set files"
    and inj: "inj_on (sha256 L) (f_bytes ` set files)"
    and fresh: "sha256 L (f_bytes f) \<notin> set (map file_hash (imports_tbl d))"
    and imp: "file_hash imp = sha256 L (f_bytes f)" "rows_inserted imp = length (accepted_rows L f)"
  shows "units_whole L files
           (with_unit d (map (stored_event (sha256 L (f_bytes f))) (accepted_rows L f)) imp)"
proof -
  let ?h = "sha256 L (f_bytes f)"
  let ?evs = "map (stored_event ?h) (accepted_rows L f)"
  let ?d' = "with_unit d ?evs imp"
  have no_rec: "filter (\<lambda>i. file_hash i = ?h) (imports_tbl d) = []"
    using fresh by (simp add: absent_iff_not_imported)
  have "unit_absent L f d \<or> unit_visible L f d"
    using whole f by (simp add: units_whole_def list_all_iff)
  with no_rec have no_ev: "filter (\<lambda>e. source_file_hash e = ?h) (events_tbl d) = []"
    by (auto simp: unit_absent_def unit_visible_def)
  have evs_h: "filter (\<lambda>e. source_file_hash e = k) ?evs = (if k = ?h then ?evs else [])" for k
    by (auto simp: filter_empty_conv filter_id_conv stored_event_def)
  have "unit_absent L g ?d' \<or> unit_visible L g ?d'" if g: "g \<in> set files" for g
  proof (cases "sha256 L (f_bytes g) = ?h")
    case True
    with inj f g have "f_bytes g = f_bytes f"
      by (auto dest: inj_onD)
    then have rows: "accepted_rows L g = accepted_rows L f"
      by (rule accepted_rows_bytes)
    have "unit_visible L g ?d'"
      using True rows no_rec no_ev imp evs_h [of ?h]
      by (simp add: unit_visible_def with_unit_def)
    then show ?thesis ..
  next
    case False
    have "unit_absent L g d \<or> unit_visible L g d"
      using whole g by (simp add: units_whole_def list_all_iff)
    moreover have "filter (\<lambda>i. file_hash i = sha256 L (f_bytes g)) (imports_tbl ?d')
        = filter (\<lambda>i. file_hash i = sha256 L (f_bytes g)) (imports_tbl d)"
      using False imp(1) by (simp add: with_unit_def)
    moreover have "filter (\<lambda>e. source_file_hash e = sha256 L (f_bytes g)) (events_tbl ?d')
        = filter (\<lambda>e. source_file_hash e = sha256 L (f_bytes g)) (events_tbl d)"
      using False evs_h [of "sha256 L (f_bytes g)"] by (simp add: with_unit_def)
    ultimately show ?thesis
      by (simp add: unit_absent_def unit_visible_def)
  qed
  then show ?thesis
    by (simp add: units_whole_def list_all_iff)
qed

lemma loop_unit:
  assumes "rows_of L (load_data L f) = Inr rows"
  shows "map (event_of (sha256 L (f_bytes f))) rows = unit_events L f"
    and "\<lparr>imported_at = now_utc L n, export_root = root_dir, file_path = f_path f,
          file_hash = sha256 L (f_bytes f), rows_inserted = length rows\<rparr> = unit_record L root_dir f n"
    and "length rows = length (accepted_rows L f)"
  using rows_of_accepted [OF assms]
  by (simp_all add: unit_events_def unit_record_def event_of_stored)

lemma ingest_trace_step:
  assumes "\<not> already_imported c (sha256 L (f_bytes f))"
    and "rows_of L (load_data L f) = Inr rows"
  shows "ingest_trace L root_dir (f # fs) c (new_files, skipped, rows_total) =
           write_unit_trace c (unit_events L f) (unit_record L root_dir f (new_files + skipped)) @
           (case write_unit c (unit_events L f) (unit_record L root_dir f (new_files + skipped)) of
              (c', Some x) \<Rightarrow> []
            | (c', None) \<Rightarrow>
                ingest_trace L root_dir fs c'
                  (new_files + 1, skipped, rows_total + length (accepted_rows L f)))"
  using assms(1) loop_unit [OF assms(2)] assms(2)
  by (simp add: Let_def split: prod.splits option.splits)

lemma ingest_loop_step:
  assumes "\<not> already_imported c (sha256 L (f_bytes f))"
    and "rows_of L (load_data L f) = Inr rows"
  shows "ingest_loop L root_dir (f # fs) c (new_files, skipped, rows_total) =
           (case write_unit c (unit_events L f) (unit_record L root_dir f (new_files + skipped)) of
              (c', Some x) \<Rightarrow> (c', Inl x)
            | (c', None) \<Rightarrow>
                ingest_loop L root_dir fs c'
                  (new_files + 1, skipped, rows_total + length (accepted_rows L f)))"
  using assms(1) loop_unit [OF assms(2)] assms(2)
  by (simp add: Let_def split: prod.splits option.splits)

lemma ingest_trace_whole:
  "pending c = None \<Longrightarrow> units_whole L all (committed c) \<Longrightarrow> set files \<subseteq> set all \<Longrightarrow>
   c' \<in> set (ingest_trace L root_dir files c acc) \<Longrightarrow>
   inj_on (sha256 L) (f_bytes ` set all) \<Longrightarrow> units_whole L all (committed c')"
proof (induction L root_dir files c acc rule: ingest_loop.induct)
  case (1 L root_dir c acc)
  then show ?case by simp
next
  case (2 L root_dir f fs c new_files skipped rows_total)
  let ?h = "sha256 L (f_bytes f)"
  have sub: "set fs \<subseteq> set all" and f: "f \<in> set all"
    using "2.prems"(3) by auto
  show ?case
  proof (cases "already_imported c ?h")
    case True
    with "2.IH"(1) [OF refl True "2.prems"(1,2) sub _ "2.prems"(5)] "2.prems"(4) show ?thesis
      by (simp add: Let_def)
  next
    case False
    show ?thesis
    proof (cases "rows_of L (load_data L f)")
      case (Inl x)
      with False "2.prems" show ?thesis by (simp add: Let_def)
    next
      case (Inr rows)
      let ?evs = "unit_events L f"
      let ?imp = "unit_record L root_dir f (new_files + skipped)"
      obtain c1 x1 where wu: "write_unit c ?evs ?imp = (c1, x1)"
        by (cases "write_unit c ?evs ?imp")
      have v: "view c = committed c"
        using "2.prems"(1) by (rule view_no_pending)
      have fresh: "?h \<notin> set (map file_hash (imports_tbl (committed c)))"
        using False v by (simp add: already_imported_def)
      have unit: "units_whole L all (with_unit (committed c) ?evs ?imp)"
        unfolding unit_events_def
        by (rule units_whole_with_unit [OF "2.prems"(2) f "2.prems"(5) fresh])
          (simp_all add: unit_record_def)
      let ?rest = "case x1 of None \<Rightarrow>
          ingest_trace L root_dir fs c1 (new_files + 1, skipped, rows_total + length (accepted_rows L f))
        | Some x \<Rightarrow> []"
      have split: "c' \<in> set (write_unit_trace c ?evs ?imp) \<or> c' \<in> set ?rest"
        using "2.prems"(4) wu unfolding ingest_trace_step [OF False Inr]
        by (cases x1) simp_all
      then show ?thesis
      proof
        assume "c' \<in> set (write_unit_trace c ?evs ?imp)"
        from write_unit_trace_committed [OF this] v "2.prems"(2) unit show ?thesis
          by auto
      next
        assume rest: "c' \<in> set ?rest"
        show ?thesis
        proof (cases x1)
          case None
          from write_unit_ok(1) [OF wu [unfolded None]] v
          have c1: "pending c1 = None" "committed c1 = with_unit (committed c) ?evs ?imp"
            by simp_all
          have wu': "write_unit c (map (event_of ?h) rows)
              \<lparr>imported_at = now_utc L (new_files + skipped), export_root = root_dir,
               file_path = f_path f, file_hash = ?h, rows_inserted = length rows\<rparr> = (c1, None)"
            using wu None loop_unit [OF Inr] by simp
          from rest None loop_unit(3) [OF Inr]
          have "c' \<in> set (ingest_trace L root_dir fs c1 (new_files + 1, skipped, rows_total + length rows))"
            by simp
          with "2.IH"(2) [OF refl False Inr _ _ c1(1) _ sub _ "2.prems"(5)] wu' c1(2) unit
          show ?thesis
            by simp
        next
          case (Some err)
          with rest show ?thesis by simp
        qed
      qed
    qed
  qed
qed

lemma ingest_loop_ok_pending:
  "ingest_loop L root_dir files c acc = (c1, Inr acc') \<Longrightarrow> pending c = None \<Longrightarrow> pending c1 = None"
proof (induction L root_dir files c acc arbitrary: c1 acc' rule: ingest_loop.induct)
  case (1 L root_dir c acc)
  then show ?case by simp
next
  case (2 L root_dir f fs c new_files skipped rows_total)
  let ?h = "sha256 L (f_bytes f)"
  show ?case
  proof (cases "already_imported c ?h")
    case True
    with 2 show ?thesis by (simp add: Let_def)
  next
    case False
    show ?thesis
    proof (cases "rows_of L (load_data L f)")
      case (Inl x)
      with False 2 show ?thesis by (simp add: Let_def)
    next
      case (Inr rows)
      let ?imp = "\<lparr>imported_at = now_utc L (new_files + skipped), export_root = root_dir,
                      file_path = f_path f, file_hash = ?h, rows_inserted = length rows\<rparr>"
      obtain c' x1 where wu: "write_unit c (map (event_of ?h) rows) ?imp = (c', x1)"
        by (cases "write_unit c (map (event_of ?h) rows) ?imp")
      show ?thesis
      proof (cases x1)
        case None
        with False Inr wu "2.prems"(1)
        have run: "ingest_loop L root_dir fs c' (new_files + 1, skipped, rows_total + length rows) = (c1, Inr acc')"
          by (simp add: Let_def)
        from write_unit_ok(1) [OF wu [unfolded None]] have "pending c' = None"
          by simp
        from "2.IH"(2) [OF refl False Inr _ _ run this] wu None show ?thesis
          by simp
      next
        case (Some err)
        with False Inr wu "2.prems"(1) show ?thesis
          by (auto simp: Let_def)
      qed
    qed
  qed
qed

text \<open>
  Claim C1. For every file it processes, the coordinator writes all accepted rows and
  one import record counting them, and the two become durable together. A run is
  started with no open transaction on a consistent store in which the unit of every
  listed file is absent or visible, the fingerprints of the listed files telling their
  contents apart. Then in every state the run passes through, completed or not, the
  committed store is consistent and holds the unit of every listed file either whole or
  not at all; when the run returns its summary every listed file's unit is visible. The
  statements the loop issues for a file that is not yet imported are those of the unit
  of that file: its accepted rows, stored with its fingerprint, and its record. Within
  a unit the committed store of every state is the one before the unit or the one with
  all its rows and its record; a unit that completes leaves the latter, one that raises
  the former. The states listed end in the state the program returns.
\<close>

theorem file_unit_atomic:
  assumes "pending c = None" and "consistent (committed c)"
    and "inj_on (sha256 L) (f_bytes ` set files)"
    and "units_whole L files (committed c)"
  shows "(\<forall>c' \<in> set (ingest_trace L root_dir files c (0, 0, 0)).
            consistent (committed c') \<and> units_whole L files (committed c'))
    \<and> last (c # ingest_trace L root_dir files c (0, 0, 0)) = fst (ingest_export L c root_dir files)
    \<and> (\<forall>s. snd (ingest_export L c root_dir files) = Inr s \<longrightarrow>
          list_all (\<lambda>f. unit_visible L f (committed (fst (ingest_export L c root_dir files)))) files)
    \<and> (\<not> already_imported c (sha256 L (f_bytes f)) \<and> rows_of L (load_data L f) = Inr rows \<longrightarrow>
          ingest_trace L root_dir (f # fs) c (new_files, skipped, rows_total) =
            write_unit_trace c (unit_events L f) (unit_record L root_dir f (new_files + skipped)) @
            (case write_unit c (unit_events L f) (unit_record L root_dir f (new_files + skipped)) of
               (c', Some x) \<Rightarrow> []
             | (c', None) \<Rightarrow>
                 ingest_trace L root_dir fs c'
                   (new_files + 1, skipped, rows_total + length (accepted_rows L f))))
    \<and> (\<forall>c' \<in> set (write_unit_trace c evs imp).
          committed c' = committed c \<or> committed c' = with_unit (committed c) evs imp)
    \<and> last (c # write_unit_trace c evs imp) = fst (write_unit c evs imp)
    \<and> (write_unit c evs imp = (c1, None) \<longrightarrow>
          c1 = \<lparr>committed = with_unit (committed c) evs imp, pending = None\<rparr>)
    \<and> (write_unit c evs imp = (c1, Some x) \<longrightarrow> committed c1 = committed c)"
proof -
  let ?T = "ingest_trace L root_dir files c (0, 0, 0)"
  let ?R = "ingest_export L c root_dir files"
  have v: "view c = committed c"
    using assms(1) by (rule view_no_pending)
  obtain cF res where run: "ingest_loop L root_dir files c (0, 0, 0) = (cF, res)"
    by (cases "ingest_loop L root_dir files c (0, 0, 0)")
  have fstR: "fst ?R = cF"
    using run by (simp add: ingest_export_def split: sum.splits prod.splits)
  have a: "last (c # ?T) = fst ?R"
    using ingest_trace_last [of c L root_dir files "(0, 0, 0)"] run fstR by simp
  have b: "\<forall>c' \<in> set ?T. consistent (committed c') \<and> units_whole L files (committed c')"
    using ingest_trace_consistent [OF assms(1,2)]
      ingest_trace_whole [OF assms(1,4) subset_refl _ assms(3)]
    by blast
  have whole_end: "units_whole L files (committed cF)"
  proof (cases "?T = []")
    case True
    with a fstR assms(4) show ?thesis by simp
  next
    case False
    then have "last (c # ?T) \<in> set ?T"
      by simp
    with a fstR b show ?thesis by auto
  qed
  have g: "\<forall>s. snd ?R = Inr s \<longrightarrow> list_all (\<lambda>f. unit_visible L f (committed (fst ?R))) files"
  proof (intro allI impI)
    fix s assume "snd ?R = Inr s"
    with run obtain acc where res: "res = Inr acc"
      by (cases res) (simp_all add: ingest_export_def)
    from ingest_loop_ok_pending [OF run [unfolded res] assms(1)] have vF: "view cF = committed cF"
      by (rule view_no_pending)
    have "unit_visible L f (committed cF)" if f: "f \<in> set files" for f
    proof -
      from ingest_loop_all_imported [OF run [unfolded res]] f vF
      have "sha256 L (f_bytes f) \<in> set (map file_hash (imports_tbl (committed cF)))"
        by (simp add: already_imported_def)
      then have "\<not> unit_absent L f (committed cF)"
        by (simp add: unit_absent_def absent_iff_not_imported)
      moreover from whole_end f have "unit_absent L f (committed cF) \<or> unit_visible L f (committed cF)"
        by (simp add: units_whole_def list_all_iff)
      ultimately show ?thesis by blast
    qed
    with fstR show "list_all (\<lambda>f. unit_visible L f (committed (fst ?R))) files"
      by (simp add: list_all_iff)
  qed
  have h: "\<not> already_imported c (sha256 L (f_bytes f)) \<and> rows_of L (load_data L f) = Inr rows \<longrightarrow>
          ingest_trace L root_dir (f # fs) c (new_files, skipped, rows_total) =
            write_unit_trace c (unit_events L f) (unit_record L root_dir f (new_files + skipped)) @
            (case write_unit c (unit_events L f) (unit_record L root_dir f (new_files + skipped)) of
               (c', Some x) \<Rightarrow> []
             | (c', None) \<Rightarrow>
                 ingest_trace L root_dir fs c'
                   (new_files + 1, skipped, rows_total + length (accepted_rows L f)))"
    using ingest_trace_step [of c L f rows root_dir fs new_files skipped rows_total] by blast
  have d: "\<forall>c' \<in> set (write_unit_trace c evs imp).
          committed c' = committed c \<or> committed c' = with_unit (committed c) evs imp"
    using write_unit_trace_committed [of _ c evs imp] v by simp
  have e: "write_unit c evs imp = (c1, None) \<longrightarrow>
          c1 = \<lparr>committed = with_unit (committed c) evs imp, pending = None\<rparr>"
    using write_unit_ok(1) [of c evs imp c1] v by simp
  have k: "write_unit c evs imp = (c1, Some x) \<longrightarrow> committed c1 = committed c"
    using write_unit_err(1) [of c evs imp c1 x] by simp
  have l: "last (c # write_unit_trace c evs imp) = fst (write_unit c evs imp)"
    by (rule write_unit_trace_last)
  from a b g h d l e k show ?thesis
    by (intro conjI)
qed

lemma sample_trace_length:
  "length (ingest_trace sample_libs ''/x'' sample_files (connect new_db) (0, 0, 0)) = 13"
  by code_simp

lemma sample_sha: "sha256 sample_libs = (\<lambda>s. s)"
  by (simp add: sample_libs_def)

lemma sample_whole_start: "units_whole sample_libs sample_files (committed (connect new_db))"
  by code_simp

lemma sample_visible_end: "list_all (\<lambda>f. unit_visible sample_libs f sample_store) sample_files"
  by code_simp

lemma sample_unit_events: "unit_events sample_libs sample_old_file = [stored_event ''old'' sample_old_row]"
  by code_simp

lemma sample_unit_record: "unit_record sample_libs ''/x'' sample_old_file 0 = sample_old_import"
  by code_simp

lemma sample_unit_written:
  "write_unit (connect new_db) [stored_event ''old'' sample_old_row] sample_old_import
     = (connect (with_unit new_db [stored_event ''old'' sample_old_row] sample_old_import), None)"
  by code_simp

theorem file_unit_atomic_witness:
  "pending (connect new_db) = None \<and> consistent (committed (connect new_db))
   \<and> inj_on (sha256 sample_libs) (f_bytes ` set sample_files)
   \<and> units_whole sample_libs sample_files (committed (connect new_db))
   \<and> length (ingest_trace sample_libs ''/x'' sample_files (connect new_db) (0, 0, 0)) = 13
   \<and> list_all (\<lambda>c'. consistent (committed c') \<and> units_whole sample_libs sample_files (committed c'))
        (ingest_trace sample_libs ''/x'' sample_files (connect new_db) (0, 0, 0))
   \<and> last (connect new_db # ingest_trace sample_libs ''/x'' sample_files (connect new_db) (0, 0, 0))
       = connect sample_store
   \<and> list_all (\<lambda>f. unit_visible sample_libs f sample_store) sample_files
   \<and> unit_events sample_libs sample_old_file = [stored_event ''old'' sample_old_row]
   \<and> unit_record sample_libs ''/x'' sample_old_file 0 = sample_old_import
   \<and> write_unit (connect new_db) [stored_event ''old'' sample_old_row] sample_old_import
       = (connect (with_unit new_db [stored_event ''old'' sample_old_row] sample_old_import), None)
   \<and> list_all (\<lambda>c'. committed c' = new_db
          \<or> committed c' = with_unit new_db [stored_event ''old'' sample_old_row] sample_old_import)
        (write_unit_trace (connect new_db) [stored_event ''old'' sample_old_row] sample_old_import)"
proof -
  have p: "pending (connect new_db) = None"
    by (simp add: connect_def)
  have k: "consistent (committed (connect new_db))"
    by (simp add: connect_def consistent_def new_db_def)
  have i: "inj_on (sha256 sample_libs) (f_bytes ` set sample_files)"
    by (simp add: sample_sha)
  have cm: "committed (connect new_db) = new_db" "committed (connect sample_store) = sample_store"
    by (simp_all add: connect_def)
  show ?thesis
    using file_unit_atomic [OF p k i sample_whole_start, of "''/x''" sample_old_file _ _ _ _ _
        "[stored_event ''old'' sample_old_row]" sample_old_import]
      p k i sample_whole_start sample_trace_length sample_unit_written sample_run
      sample_visible_end sample_unit_events sample_unit_record
    by (simp add: list_all_iff cm)
qed

section \<open>Properties of the top-artists series\<close>














text \<open>
  From 18 artists on, what is known of the partitioning sort settles no order among
  artists with equal minutes: a sort that meets it lists 18 tied artists by descending
  name.
\<close>

lemma sample_reversing_sorts: "sorts_by_value (partition_sort sample_reversing)"
proof -
  have "sorted (map snd (rev (sort_key (\<lambda>p. - snd p) s)))" for s :: "(string \<times> rat) list"
  proof -
    have "sorted (map (\<lambda>p. - snd p) (sort_key (\<lambda>p. - snd p) s))"
      by (rule sorted_sort_key)
    then have "sorted_wrt (\<lambda>p q. snd q \<le> snd p) (sort_key (\<lambda>p. - snd p) s)"
      by (simp add: sorted_map)
    then have "sorted_wrt (\<lambda>p q. snd p \<le> snd q) (rev (sort_key (\<lambda>p. - snd p) s))"
      by (simp add: sorted_wrt_rev)
    then show ?thesis
      by (simp add: sorted_map)
  qed
  then show ?thesis
    by (simp add: sorts_by_value_def sample_reversing_def)
qed

lemma ties_open_from_18:
  "map fst (top_art sample_reversing sample_df18) = map (\<lambda>c. [c]) ''rqponmlkjihgfed''"
  by code_simp





end
